theory Spec2Isabelle
  imports Main "HOL-Library.Word"
begin

section \<open>Bytes, strings and errors\<close>

type_synonym byte = "8 word"

text \<open>
  A Go \<open>string\<close> is a sequence of bytes; it is modelled as a \<open>string\<close> (a list of
  8-bit characters). \<open>string(b)\<close> on a byte slice and \<open>byte(s[i])\<close> are the two
  conversions below.
\<close>

definition string_of_bytes :: "byte list \<Rightarrow> string" where
  "string_of_bytes bs = map (\<lambda>b. char_of (unat b)) bs"

definition byte_of_char :: "char \<Rightarrow> byte" where
  "byte_of_char c = of_nat (of_char c)"

text \<open>
  Every way a call can end without a result: the errors returned by the decoders, and
  \<open>Panic\<close>, the run-time panic of Go (an index out of range, a negative length
  given to \<open>make\<close>).
\<close>

datatype error =
    OutOfData
  | MoreThanMaxRecords
  | MissingNullTerminator
  | UnableToParse
  | Panic

section \<open>The bit/byte cursor\<close>

text \<open>
  Modelled from the spec: the cursor of package \<open>bitstream\<close> is an external
  library. \<open>next(n)\<close> consumes exactly \<open>n\<close> bytes from the current position and
  fails with an out-of-data condition if fewer than \<open>n\<close> remain; \<open>position()\<close> is
  the current byte offset. Every read of the two decoders is a whole number of bytes, so
  the cursor stays byte-aligned and a position in bytes is all the state there is.
\<close>

record Reader =
  buf :: "byte list"
  pos :: nat

definition FromBytes :: "byte list \<Rightarrow> Reader" where
  "FromBytes data = \<lparr>buf = data, pos = 0\<rparr>"

definition Position :: "Reader \<Rightarrow> nat" where
  "Position r = pos r"

definition Next_AsBytes :: "nat \<Rightarrow> Reader \<Rightarrow> error + (byte list \<times> Reader)" where
  "Next_AsBytes n r =
     (if pos r + n \<le> length (buf r)
      then Inr (take n (drop (pos r) (buf r)), r\<lparr>pos := pos r + n\<rparr>)
      else Inl OutOfData)"

text \<open>
  Modelled from the spec: the writer counterpart appends bytes in order and exposes the
  final buffer contents.
\<close>

type_synonym Writer = "byte list"

definition WriteByte :: "byte \<Rightarrow> Writer \<Rightarrow> Writer" where
  "WriteByte b sw = sw @ [b]"

definition WriteBytes :: "byte list \<Rightarrow> Writer \<Rightarrow> Writer" where
  "WriteBytes bs sw = sw @ bs"

section \<open>Go strings: zero stripping and iteration over runes\<close>

text \<open>\<open>strings.ReplaceAll(s, string(byte(0)), "")\<close>: every zero byte is removed.\<close>

definition stripZeros :: "string \<Rightarrow> string" where
  "stripZeros s = filter (\<lambda>c. c \<noteq> char_of (0::nat)) s"

definition RuneError :: int where
  "RuneError = 65533"

text \<open>
  The UTF-8 decoding that \<open>for idx, letter := range s\<close> performs on a string: an
  ASCII byte is its own rune; a well-formed sequence of 2, 3 or 4 bytes gives its code
  point; anything else gives \<open>RuneError\<close> and consumes one byte.
\<close>

fun DecodeRuneInString :: "string \<Rightarrow> int \<times> nat" where
  "DecodeRuneInString [] = (RuneError, 0)"
| "DecodeRuneInString (c0 # cs) =
     (let s0 = (of_char c0 :: nat) in
      if s0 < 128 then (int s0, 1)
      else if s0 < 194 \<or> 244 < s0 then (RuneError, 1)
      else
        let sz = (if s0 < 224 then 2 else if s0 < 240 then 3 else 4 :: nat);
            lo = (if s0 = 224 then 160 else if s0 = 240 then 144 else 128 :: nat);
            hi = (if s0 = 237 then 159 else if s0 = 244 then 143 else 191 :: nat)
        in
        if Suc (length cs) < sz then (RuneError, 1)
        else
          let s1 = (of_char (cs ! 0) :: nat) in
          if s1 < lo \<or> hi < s1 then (RuneError, 1)
          else if sz \<le> 2 then (int ((s0 mod 32) * 64 + s1 mod 64), 2)
          else
            let s2 = (of_char (cs ! 1) :: nat) in
            if s2 < 128 \<or> 191 < s2 then (RuneError, 1)
            else if sz \<le> 3
              then (int ((s0 mod 16) * 4096 + (s1 mod 64) * 64 + s2 mod 64), 3)
            else
              let s3 = (of_char (cs ! 2) :: nat) in
              if s3 < 128 \<or> 191 < s3 then (RuneError, 1)
              else (int ((s0 mod 8) * 262144 + (s1 mod 64) * 4096
                         + (s2 mod 64) * 64 + s3 mod 64), 4))"

text \<open>
  The pairs \<open>(idx, letter)\<close> a range loop over a string visits, in order: \<open>idx\<close> is
  the byte offset at which the rune \<open>letter\<close> starts.
\<close>

function stringRange :: "nat \<Rightarrow> string \<Rightarrow> (nat \<times> int) list" where
  "stringRange idx [] = []"
| "stringRange idx (c # cs) =
     (case DecodeRuneInString (c # cs) of
        (letter, sz) \<Rightarrow> (idx, letter) # stringRange (idx + sz) (drop (sz - 1) cs))"
  by pat_completeness auto
termination
  by (relation "measure (\<lambda>(idx, s). length s)") auto

section \<open>The composite object document\<close>

text \<open>
  \<open>CompositeType\<close>, \<open>DrawEffect\<close> and \<open>FrameEvent\<close> are integer types of the
  package (the code converts bytes to them and back); \<open>WeaponClass\<close> is the code of an
  enumeration. All four are modelled as \<open>int\<close>. The two conversions of the weapon-class
  enumeration, \<open>WeaponClassFromString\<close> and \<open>WeaponClass.String\<close>, are tables of
  the package that the model takes as parameters, \<open>wcFromString\<close> and
  \<open>wcString\<close>; so is \<open>strings.TrimSpace\<close> of the Go library, \<open>trimSpace\<close>.
\<close>

type_synonym CompositeType = int
type_synonym DrawEffect = int
type_synonym WeaponClass = int
type_synonym FrameEvent = int

definition EventNone :: FrameEvent where "EventNone = 0"
definition EventAttack :: FrameEvent where "EventAttack = 1"
definition EventMissile :: FrameEvent where "EventMissile = 2"
definition EventSound :: FrameEvent where "EventSound = 3"
definition EventSkill :: FrameEvent where "EventSkill = 4"

definition numUnknownHeaderBytes :: nat where "numUnknownHeaderBytes = 21"
definition numUnknownBodyBytes :: nat where "numUnknownBodyBytes = 3"
definition numHeaderBytes :: nat where "numHeaderBytes = 4 + numUnknownHeaderBytes"
definition numLayerBytes :: nat where "numLayerBytes = 9"

definition headerNumLayers :: nat where "headerNumLayers = 0"
definition headerFramesPerDir :: nat where "headerFramesPerDir = 1"
definition headerNumDirs :: nat where "headerNumDirs = 2"
definition headerSpeed :: nat where "headerSpeed = numHeaderBytes - 1"

definition layerType :: nat where "layerType = 0"
definition layerShadow :: nat where "layerShadow = 1"
definition layerSelectable :: nat where "layerSelectable = 2"
definition layerTransparent :: nat where "layerTransparent = 3"
definition layerDrawEffect :: nat where "layerDrawEffect = 4"
definition layerWeaponClass :: nat where "layerWeaponClass = 5"

record CofLayer =
  Type :: CompositeType
  Shadow :: byte
  Selectable :: bool
  Transparent :: bool
  DrawEffect :: DrawEffect
  WeaponClass :: WeaponClass

text \<open>The zero value \<open>CofLayer{}\<close>.\<close>

definition zeroCofLayer :: CofLayer where
  "zeroCofLayer = \<lparr>Type = 0, Shadow = 0, Selectable = False, Transparent = False,
                   DrawEffect = 0, WeaponClass = 0\<rparr>"

record COF =
  unknownHeaderBytes :: "byte list"
  unknownBodyBytes :: "byte list"
  NumberOfDirections :: int
  FramesPerDirection :: int
  NumberOfLayers :: int
  Speed :: int
  CofLayers :: "CofLayer list"
  CompositeLayers :: "CompositeType \<rightharpoonup> int"
  AnimationFrames :: "FrameEvent list"
  Priority :: "CompositeType list list list"

definition New :: COF where
  "New = \<lparr>unknownHeaderBytes = replicate numUnknownHeaderBytes 0,
          unknownBodyBytes = replicate numUnknownBodyBytes 0,
          NumberOfDirections = 0,
          FramesPerDirection = 0,
          NumberOfLayers = 0,
          Speed = 0,
          CofLayers = [],
          CompositeLayers = Map.empty,
          AnimationFrames = [],
          Priority = []\<rparr>"

subsection \<open>Decoding\<close>

definition loadHeader :: "COF \<Rightarrow> byte list \<Rightarrow> error + COF" where
  "loadHeader c b =
     (if length b \<le> headerSpeed then Inl Panic
      else Inr (c\<lparr>NumberOfLayers := uint (b ! headerNumLayers),
                  FramesPerDirection := uint (b ! headerFramesPerDir),
                  NumberOfDirections := uint (b ! headerNumDirs),
                  unknownHeaderBytes :=
                    take (headerSpeed - (headerNumDirs + 1)) (drop (headerNumDirs + 1) b),
                  Speed := uint (b ! headerSpeed)\<rparr>))"

text \<open>
  The statements of the loop of \<open>loadCOFLayers\<close> that build \<open>layer\<close> from the nine
  bytes \<open>b\<close> of a layer descriptor.
\<close>

definition layerOfBytes ::
  "(string \<Rightarrow> WeaponClass) \<Rightarrow> (string \<Rightarrow> string) \<Rightarrow> byte list \<Rightarrow> CofLayer" where
  "layerOfBytes wcFromString trimSpace b =
     \<lparr>Type = uint (b ! layerType),
      Shadow = b ! layerShadow,
      Selectable = (b ! layerSelectable > 0),
      Transparent = (b ! layerTransparent > 0),
      DrawEffect = uint (b ! layerDrawEffect),
      WeaponClass = wcFromString (trimSpace (stripZeros
                      (string_of_bytes (drop layerWeaponClass b))))\<rparr>"

text \<open>
  The loop of \<open>loadCOFLayers\<close>, from index \<open>i\<close> on. The result is the document as
  the loop left it, the cursor, and the error returned, if any.
\<close>

function loadCOFLayers_from ::
  "(string \<Rightarrow> WeaponClass) \<Rightarrow> (string \<Rightarrow> string) \<Rightarrow> nat \<Rightarrow> COF \<Rightarrow> Reader
     \<Rightarrow> COF \<times> Reader \<times> error option" where
  "loadCOFLayers_from wcFromString trimSpace i c s =
     (if int i < NumberOfLayers c then
        (case Next_AsBytes numLayerBytes s of
           Inl err \<Rightarrow> (c, s, Some err)
         | Inr (b, s') \<Rightarrow>
             let layer = layerOfBytes wcFromString trimSpace b
             in if i < length (CofLayers c)
                then loadCOFLayers_from wcFromString trimSpace (Suc i)
                       (c\<lparr>CofLayers := (CofLayers c)[i := layer],
                          CompositeLayers := (CompositeLayers c)(Type layer \<mapsto> int i)\<rparr>) s'
                else (c, s', Some Panic))
      else (c, s, None))"
  by pat_completeness auto
termination
  by (relation "measure (\<lambda>(wcFromString, trimSpace, i, c, s). nat (NumberOfLayers c) - i)")
     auto

declare loadCOFLayers_from.simps [simp del]

definition loadCOFLayers ::
  "(string \<Rightarrow> WeaponClass) \<Rightarrow> (string \<Rightarrow> string) \<Rightarrow> COF \<Rightarrow> Reader
     \<Rightarrow> COF \<times> Reader \<times> error option" where
  "loadCOFLayers wcFromString trimSpace c s = loadCOFLayers_from wcFromString trimSpace 0 c s"

text \<open>The loop \<open>for i := range b\<close> of \<open>loadAnimationFrames\<close>, from index \<open>i\<close> on.\<close>

fun loadAnimationFrames_from ::
  "nat \<Rightarrow> byte list \<Rightarrow> FrameEvent list \<Rightarrow> error + FrameEvent list" where
  "loadAnimationFrames_from i [] frames = Inr frames"
| "loadAnimationFrames_from i (x # xs) frames =
     (if i < length frames
      then loadAnimationFrames_from (Suc i) xs (frames[i := uint x])
      else Inl Panic)"

definition loadAnimationFrames :: "COF \<Rightarrow> byte list \<Rightarrow> error + COF" where
  "loadAnimationFrames c b =
     (if FramesPerDirection c < 0 then Inl Panic
      else case loadAnimationFrames_from 0 b (replicate (nat (FramesPerDirection c)) 0) of
             Inl err \<Rightarrow> Inl err
           | Inr frames \<Rightarrow> Inr (c\<lparr>AnimationFrames := frames\<rparr>))"

text \<open>
  The three nested loops of \<open>loadPriority\<close>. The loops change the matrix and
  \<open>priorityIndex\<close> only, which are passed along as a pair; the bounds are read from
  the document at every test, as in the source.
\<close>

function loadPriority_layers ::
  "COF \<Rightarrow> byte list \<Rightarrow> nat \<Rightarrow> nat \<Rightarrow> nat \<Rightarrow> CompositeType list list list \<times> nat
     \<Rightarrow> error + (CompositeType list list list \<times> nat)" where
  "loadPriority_layers c priorityBytes direction frame i (P, priorityIndex) =
     (if int i < NumberOfLayers c then
        (if priorityIndex < length priorityBytes \<and> direction < length P
            \<and> frame < length (P ! direction) \<and> i < length (P ! direction ! frame)
         then loadPriority_layers c priorityBytes direction frame (Suc i)
                (P[direction := (P ! direction)[frame := (P ! direction ! frame)
                     [i := uint (priorityBytes ! priorityIndex)]]],
                 Suc priorityIndex)
         else Inl Panic)
      else Inr (P, priorityIndex))"
  by pat_completeness auto
termination
  by (relation "measure (\<lambda>(c, pb, d, f, i, st). nat (NumberOfLayers c) - i)") auto

declare loadPriority_layers.simps [simp del]

function loadPriority_frames ::
  "COF \<Rightarrow> byte list \<Rightarrow> nat \<Rightarrow> nat \<Rightarrow> CompositeType list list list \<times> nat
     \<Rightarrow> error + (CompositeType list list list \<times> nat)" where
  "loadPriority_frames c priorityBytes direction frame (P, priorityIndex) =
     (if int frame < FramesPerDirection c then
        (if NumberOfLayers c < 0 \<or> \<not> direction < length P
            \<or> \<not> frame < length (P ! direction)
         then Inl Panic
         else case loadPriority_layers c priorityBytes direction frame 0
                     (P[direction := (P ! direction)
                          [frame := replicate (nat (NumberOfLayers c)) 0]],
                      priorityIndex) of
                Inl err \<Rightarrow> Inl err
              | Inr st \<Rightarrow> loadPriority_frames c priorityBytes direction (Suc frame) st)
      else Inr (P, priorityIndex))"
  by pat_completeness auto
termination
  by (relation "measure (\<lambda>(c, pb, d, f, st). nat (FramesPerDirection c) - f)") auto

declare loadPriority_frames.simps [simp del]

function loadPriority_directions ::
  "COF \<Rightarrow> byte list \<Rightarrow> nat \<Rightarrow> CompositeType list list list \<times> nat
     \<Rightarrow> error + (CompositeType list list list \<times> nat)" where
  "loadPriority_directions c priorityBytes direction (P, priorityIndex) =
     (if int direction < NumberOfDirections c then
        (if FramesPerDirection c < 0 \<or> \<not> direction < length P
         then Inl Panic
         else case loadPriority_frames c priorityBytes direction 0
                     (P[direction := replicate (nat (FramesPerDirection c)) []],
                      priorityIndex) of
                Inl err \<Rightarrow> Inl err
              | Inr st \<Rightarrow> loadPriority_directions c priorityBytes (Suc direction) st)
      else Inr (P, priorityIndex))"
  by pat_completeness auto
termination
  by (relation "measure (\<lambda>(c, pb, d, st). nat (NumberOfDirections c) - d)") auto

declare loadPriority_directions.simps [simp del]

definition loadPriority :: "COF \<Rightarrow> byte list \<Rightarrow> error + COF" where
  "loadPriority c priorityBytes =
     (case loadPriority_directions c priorityBytes 0 (Priority c, 0) of
        Inl err \<Rightarrow> Inl err
      | Inr (P, priorityIndex) \<Rightarrow> Inr (c\<lparr>Priority := P\<rparr>))"

text \<open>
  The method \<open>(c *COF) Unmarshal\<close>: the receiver is changed in place, so the model
  returns the document as the call left it together with the error, if any. Where the
  source assigns the result of a read before it tests the error
  (\<open>c.unknownBodyBytes\<close>), a failed read assigns no bytes.
\<close>

definition COF_Unmarshal ::
  "(string \<Rightarrow> WeaponClass) \<Rightarrow> (string \<Rightarrow> string) \<Rightarrow> COF \<Rightarrow> byte list
     \<Rightarrow> COF \<times> error option" where
  "COF_Unmarshal wcFromString trimSpace c fileData =
     (let stream = FromBytes fileData in
      case Next_AsBytes numHeaderBytes stream of
        Inl err \<Rightarrow> (c, Some err)
      | Inr (headerBytes, stream) \<Rightarrow>
      case loadHeader c headerBytes of
        Inl err \<Rightarrow> (c, Some err)
      | Inr c \<Rightarrow>
      case Next_AsBytes numUnknownBodyBytes stream of
        Inl err \<Rightarrow> (c\<lparr>unknownBodyBytes := []\<rparr>, Some err)
      | Inr (bodyBytes, stream) \<Rightarrow>
      let c = c\<lparr>unknownBodyBytes := bodyBytes\<rparr>;
          c = c\<lparr>CofLayers := replicate (nat (NumberOfLayers c)) zeroCofLayer\<rparr>;
          c = c\<lparr>CompositeLayers := Map.empty\<rparr>
      in
      case loadCOFLayers wcFromString trimSpace c stream of
        (c, stream, Some err) \<Rightarrow> (c, Some err)
      | (c, stream, None) \<Rightarrow>
      case Next_AsBytes (nat (FramesPerDirection c)) stream of
        Inl err \<Rightarrow> (c, Some err)
      | Inr (animationFramesData, stream) \<Rightarrow>
      case loadAnimationFrames c animationFramesData of
        Inl err \<Rightarrow> (c, Some err)
      | Inr c \<Rightarrow>
      let priorityLen = FramesPerDirection c * NumberOfDirections c * NumberOfLayers c;
          c = c\<lparr>Priority := replicate (nat (NumberOfDirections c)) []\<rparr>
      in
      case Next_AsBytes (nat priorityLen) stream of
        Inl err \<Rightarrow> (c, Some err)
      | Inr (priorityBytes, stream) \<Rightarrow>
      case loadPriority c priorityBytes of
        Inl err \<Rightarrow> (c, Some err)
      | Inr c \<Rightarrow> (c, None))"

text \<open>The function \<open>Unmarshal\<close>: \<open>c := New(); err := c.Unmarshal(data); return c, err\<close>.\<close>

definition Unmarshal ::
  "(string \<Rightarrow> WeaponClass) \<Rightarrow> (string \<Rightarrow> string) \<Rightarrow> byte list \<Rightarrow> COF \<times> error option" where
  "Unmarshal wcFromString trimSpace data = COF_Unmarshal wcFromString trimSpace New data"

subsection \<open>Encoding\<close>

definition maxCodeLength :: nat where "maxCodeLength = 3"
definition terminator :: byte where "terminator = 0"

text \<open>
  The loop \<open>for idx, letter := range weaponCode\<close> with its \<open>break\<close>, over the pairs
  the range visits.
\<close>

fun writeWeaponCode :: "(nat \<times> int) list \<Rightarrow> Writer \<Rightarrow> Writer" where
  "writeWeaponCode [] sw = sw"
| "writeWeaponCode ((idx, letter) # rest) sw =
     (if idx > maxCodeLength then sw
      else writeWeaponCode rest (WriteByte (word_of_int letter) sw))"

text \<open>One turn of the loop \<open>for i := range c.CofLayers\<close> of \<open>Marshal\<close>.\<close>

definition marshalLayer :: "(WeaponClass \<Rightarrow> string) \<Rightarrow> CofLayer \<Rightarrow> Writer \<Rightarrow> Writer" where
  "marshalLayer wcString layer sw =
     (let sw = WriteByte (word_of_int (Type layer)) sw;
          sw = WriteByte (Shadow layer) sw;
          sw = (if Selectable layer then WriteByte 1 sw else WriteByte 0 sw);
          sw = (if Transparent layer then WriteByte 1 sw else WriteByte 0 sw);
          sw = WriteByte (word_of_int (DrawEffect layer)) sw;
          weaponCode = wcString (WeaponClass layer);
          sw = writeWeaponCode (stringRange 0 weaponCode) sw
      in WriteByte terminator sw)"

text \<open>The three nested loops of \<open>Marshal\<close> over the priority matrix.\<close>

function marshalPriority_layers ::
  "COF \<Rightarrow> nat \<Rightarrow> nat \<Rightarrow> nat \<Rightarrow> Writer \<Rightarrow> error + Writer" where
  "marshalPriority_layers c direction frame i sw =
     (if int i < NumberOfLayers c then
        (if direction < length (Priority c) \<and> frame < length (Priority c ! direction)
            \<and> i < length (Priority c ! direction ! frame)
         then marshalPriority_layers c direction frame (Suc i)
                (WriteByte (word_of_int (Priority c ! direction ! frame ! i)) sw)
         else Inl Panic)
      else Inr sw)"
  by pat_completeness auto
termination
  by (relation "measure (\<lambda>(c, d, f, i, sw). nat (NumberOfLayers c) - i)") auto

declare marshalPriority_layers.simps [simp del]

function marshalPriority_frames :: "COF \<Rightarrow> nat \<Rightarrow> nat \<Rightarrow> Writer \<Rightarrow> error + Writer" where
  "marshalPriority_frames c direction frame sw =
     (if int frame < FramesPerDirection c then
        (case marshalPriority_layers c direction frame 0 sw of
           Inl err \<Rightarrow> Inl err
         | Inr sw' \<Rightarrow> marshalPriority_frames c direction (Suc frame) sw')
      else Inr sw)"
  by pat_completeness auto
termination
  by (relation "measure (\<lambda>(c, d, f, sw). nat (FramesPerDirection c) - f)") auto

declare marshalPriority_frames.simps [simp del]

function marshalPriority_directions :: "COF \<Rightarrow> nat \<Rightarrow> Writer \<Rightarrow> error + Writer" where
  "marshalPriority_directions c direction sw =
     (if int direction < NumberOfDirections c then
        (case marshalPriority_frames c direction 0 sw of
           Inl err \<Rightarrow> Inl err
         | Inr sw' \<Rightarrow> marshalPriority_directions c (Suc direction) sw')
      else Inr sw)"
  by pat_completeness auto
termination
  by (relation "measure (\<lambda>(c, d, sw). nat (NumberOfDirections c) - d)") auto

declare marshalPriority_directions.simps [simp del]

text \<open>
  The method \<open>(c *COF) Marshal\<close>. It returns the bytes written, or \<open>Panic\<close> where the
  source indexes the priority matrix out of range.
\<close>

definition COF_Marshal :: "(WeaponClass \<Rightarrow> string) \<Rightarrow> COF \<Rightarrow> error + byte list" where
  "COF_Marshal wcString c =
     (let sw = [];
          sw = WriteByte (word_of_int (NumberOfLayers c)) sw;
          sw = WriteByte (word_of_int (FramesPerDirection c)) sw;
          sw = WriteByte (word_of_int (NumberOfDirections c)) sw;
          sw = WriteBytes (unknownHeaderBytes c) sw;
          sw = WriteByte (word_of_int (Speed c)) sw;
          sw = WriteBytes (unknownBodyBytes c) sw;
          sw = fold (marshalLayer wcString) (CofLayers c) sw;
          sw = fold (\<lambda>i. WriteByte (word_of_int i)) (AnimationFrames c) sw
      in marshalPriority_directions c 0 sw)"

definition Marshal :: "(WeaponClass \<Rightarrow> string) \<Rightarrow> COF \<Rightarrow> error + byte list" where
  "Marshal wcString c = COF_Marshal wcString c"

section \<open>The animation metadata store\<close>

text \<open>
  Modelled from the spec: the cursor reads integers in its native order, the least
  significant bit first, so a 32-bit count and a 16-bit speed are little-endian.
  \<open>Next(32).Bits().AsUInt32()\<close>, \<open>Next(2).Bytes().AsUInt16()\<close> and
  \<open>Next(1).Bytes().AsByte()\<close> consume 4, 2 and 1 bytes.
\<close>

fun littleEndian :: "byte list \<Rightarrow> nat" where
  "littleEndian [] = 0"
| "littleEndian (b # bs) = unat b + 256 * littleEndian bs"

definition AsUInt32 :: "byte list \<Rightarrow> 32 word" where
  "AsUInt32 bs = of_nat (littleEndian bs)"

definition AsUInt16 :: "byte list \<Rightarrow> 16 word" where
  "AsUInt16 bs = of_nat (littleEndian bs)"

definition Next_AsUInt32 :: "Reader \<Rightarrow> error + (32 word \<times> Reader)" where
  "Next_AsUInt32 r =
     (case Next_AsBytes 4 r of
        Inl err \<Rightarrow> Inl err
      | Inr (bs, r') \<Rightarrow> Inr (AsUInt32 bs, r'))"

definition Next_AsUInt16 :: "Reader \<Rightarrow> error + (16 word \<times> Reader)" where
  "Next_AsUInt16 r =
     (case Next_AsBytes 2 r of
        Inl err \<Rightarrow> Inl err
      | Inr (bs, r') \<Rightarrow> Inr (AsUInt16 bs, r'))"

definition Next_AsByte :: "Reader \<Rightarrow> error + (byte \<times> Reader)" where
  "Next_AsByte r =
     (case Next_AsBytes 1 r of
        Inl err \<Rightarrow> Inl err
      | Inr (bs, r') \<Rightarrow> Inr (bs ! 0, r'))"

definition numBlocks :: nat where "numBlocks = 256"
definition maxRecordsPerBlock :: "32 word" where "maxRecordsPerBlock = 67"
definition byteCountName :: nat where "byteCountName = 8"
definition byteCountSpeedPadding :: nat where "byteCountSpeedPadding = 2"
definition numEvents :: nat where "numEvents = 144"

text \<open>
  Modelled from the spec: the structs \<open>AnimationDataRecord\<close> and \<open>block\<close>, the type
  \<open>hashTable\<close> and the function \<open>hashName\<close> are declared in files of the package
  that are not at hand. The record has the four fields of the composite literal in
  \<open>Load\<close>, in its order (a name, a 32-bit frame count, a 16-bit speed, a sparse map of
  events); a block has a count and its records. \<open>hashName\<close> is a parameter of the
  model, with any type \<open>'h\<close> of hashes. The hash journal \<open>hashTable\<close> is an array
  indexed by \<open>hashIdx\<close>; the model keeps the slots that were assigned, and a slot
  that was never assigned (it still holds its zero value) is \<open>None\<close>.
\<close>

record AnimationDataRecord =
  name :: string
  framesPerDirection :: "32 word"
  speed :: "16 word"
  events :: "int \<rightharpoonup> FrameEvent"

record block =
  recordCount :: "32 word"
  records :: "AnimationDataRecord list"

record 'h AnimationData =
  hashTable :: "nat \<rightharpoonup> 'h"
  blocks :: "block list"
  entries :: "string \<rightharpoonup> AnimationDataRecord list"

text \<open>
  Reading a Go map at a key it does not hold gives the zero value, here the nil slice.
\<close>

definition entriesAt :: "'h AnimationData \<Rightarrow> string \<Rightarrow> AnimationDataRecord list" where
  "entriesAt ad nm = (case entries ad nm of None \<Rightarrow> [] | Some rs \<Rightarrow> rs)"

definition GetRecords :: "'h AnimationData \<Rightarrow> string \<Rightarrow> AnimationDataRecord list" where
  "GetRecords ad nm = entriesAt ad nm"

text \<open>\<open>GetRecord\<close> returns a pointer: \<open>None\<close> is \<open>nil\<close>.\<close>

definition GetRecord :: "'h AnimationData \<Rightarrow> string \<Rightarrow> AnimationDataRecord option" where
  "GetRecord ad nm =
     (let recs = GetRecords ad nm;
          numRecords = length recs
      in if numRecords < 1 then None else Some (recs ! (numRecords - 1)))"

text \<open>The loop over the 144 event slots of a record, from slot \<open>eventIdx\<close> on.\<close>

function loadEvents_from ::
  "nat \<Rightarrow> (int \<rightharpoonup> FrameEvent) \<Rightarrow> Reader \<Rightarrow> error + ((int \<rightharpoonup> FrameEvent) \<times> Reader)" where
  "loadEvents_from eventIdx evs reader =
     (if eventIdx < numEvents then
        (case Next_AsByte reader of
           Inl err \<Rightarrow> Inl err
         | Inr (b, reader') \<Rightarrow>
             let event = uint b
             in loadEvents_from (Suc eventIdx)
                  (if event \<noteq> EventNone then evs(int eventIdx \<mapsto> event) else evs) reader')
      else Inr (evs, reader))"
  by pat_completeness auto
termination
  by (relation "measure (\<lambda>(eventIdx, evs, reader). numEvents - eventIdx)") auto

declare loadEvents_from.simps [simp del]

text \<open>
  One turn of the loop over the records of a block, up to the construction of the record
  \<open>r\<close> and the update of \<open>entries\<close>. \<open>Load\<close> returns \<open>nil\<close> with every error, so
  a failed turn gives the error alone.
\<close>

definition loadRecord ::
  "(string \<Rightarrow> 'h) \<Rightarrow> nat \<Rightarrow> 'h AnimationData \<Rightarrow> Reader
     \<Rightarrow> error + (AnimationDataRecord \<times> 'h AnimationData \<times> Reader)" where
  "loadRecord hashName hashIdx animdata reader =
     (case Next_AsBytes byteCountName reader of
        Inl err \<Rightarrow> Inl err
      | Inr (nameBytes, reader) \<Rightarrow>
      if nameBytes ! (byteCountName - 1) \<noteq> 0 then Inl MissingNullTerminator
      else
      let nm = stripZeros (string_of_bytes nameBytes);
          animdata = animdata\<lparr>hashTable := (hashTable animdata)(hashIdx \<mapsto> hashName nm)\<rparr>
      in
      case Next_AsUInt32 reader of
        Inl err \<Rightarrow> Inl err
      | Inr (frames, reader) \<Rightarrow>
      case Next_AsUInt16 reader of
        Inl err \<Rightarrow> Inl err
      | Inr (spd, reader) \<Rightarrow>
      case Next_AsBytes byteCountSpeedPadding reader of
        Inl err \<Rightarrow> Inl err
      | Inr (padding, reader) \<Rightarrow>
      case loadEvents_from 0 Map.empty reader of
        Inl err \<Rightarrow> Inl err
      | Inr (evs, reader) \<Rightarrow>
      let r = \<lparr>name = nm, framesPerDirection = frames, speed = spd, events = evs\<rparr>;
          animdata = (case entries animdata (name r) of
                        None \<Rightarrow> animdata\<lparr>entries := (entries animdata)(name r \<mapsto> [])\<rparr>
                      | Some rs \<Rightarrow> animdata);
          animdata = animdata\<lparr>entries :=
                       (entries animdata)(name r \<mapsto> entriesAt animdata (name r) @ [r])\<rparr>
      in Inr (r, animdata, reader))"

text \<open>
  The loop over the records of a block, from \<open>recordIdx\<close> on. The slice \<open>records\<close>
  is made with \<open>recordCount\<close> slots and filled in index order; as no error path lets it
  be seen half filled, the model appends.
\<close>

function loadRecords_from ::
  "(string \<Rightarrow> 'h) \<Rightarrow> nat \<Rightarrow> 32 word \<Rightarrow> 32 word \<Rightarrow> AnimationDataRecord list
     \<Rightarrow> 'h AnimationData \<Rightarrow> Reader
     \<Rightarrow> error + (AnimationDataRecord list \<times> 'h AnimationData \<times> Reader)" where
  "loadRecords_from hashName hashIdx recCount recordIdx recs animdata reader =
     (if recordIdx < recCount then
        (case loadRecord hashName hashIdx animdata reader of
           Inl err \<Rightarrow> Inl err
         | Inr (r, animdata', reader') \<Rightarrow>
             loadRecords_from hashName hashIdx recCount (recordIdx + 1) (recs @ [r])
               animdata' reader')
      else Inr (recs, animdata, reader))"
  by pat_completeness auto
termination
proof (relation "measure (\<lambda>(hashName, hashIdx, recCount, recordIdx, recs, animdata, reader).
                            unat recCount - unat recordIdx)", goal_cases)
  case 1
  show ?case by simp
next
  case (2 hashName hashIdx recCount recordIdx recs animdata reader x2 x y xa ya)
  then have "recordIdx < recCount" by simp
  then have "unat recCount - unat (recordIdx + 1) < unat recCount - unat recordIdx"
    by unat_arith
  then show ?case by simp
qed

declare loadRecords_from.simps [simp del]

text \<open>One turn of the loop over the blocks.\<close>

definition loadBlock ::
  "(string \<Rightarrow> 'h) \<Rightarrow> nat \<Rightarrow> nat \<Rightarrow> 'h AnimationData \<times> Reader
     \<Rightarrow> error + ('h AnimationData \<times> Reader)" where
  "loadBlock hashName hashIdx blockIdx st =
     (case st of (animdata, reader) \<Rightarrow>
      case Next_AsUInt32 reader of
        Inl err \<Rightarrow> Inl err
      | Inr (recCount, reader) \<Rightarrow>
      if recCount > maxRecordsPerBlock then Inl MoreThanMaxRecords
      else
      case loadRecords_from hashName hashIdx recCount 0 [] animdata reader of
        Inl err \<Rightarrow> Inl err
      | Inr (recs, animdata, reader) \<Rightarrow>
      let b = \<lparr>recordCount = recCount, records = recs\<rparr>
      in Inr (animdata\<lparr>blocks := blocks animdata @ [b]\<rparr>, reader))"

text \<open>
  The loop \<open>for blockIdx := range animdata.blocks\<close>, over the indices it visits. The
  array \<open>blocks\<close> is filled in index order and never seen half filled, so the model
  appends.
\<close>

fun loadBlocks ::
  "(string \<Rightarrow> 'h) \<Rightarrow> nat \<Rightarrow> nat list \<Rightarrow> 'h AnimationData \<times> Reader
     \<Rightarrow> error + ('h AnimationData \<times> Reader)" where
  "loadBlocks hashName hashIdx [] st = Inr st"
| "loadBlocks hashName hashIdx (blockIdx # rest) st =
     (case loadBlock hashName hashIdx blockIdx st of
        Inl err \<Rightarrow> Inl err
      | Inr st' \<Rightarrow> loadBlocks hashName hashIdx rest st')"

text \<open>
  \<open>Load\<close> returns a pointer and an error: \<open>(None, Some err)\<close> is \<open>nil, err\<close> and
  \<open>(Some animdata, None)\<close> is \<open>animdata, nil\<close>.
\<close>

definition Load ::
  "(string \<Rightarrow> 'h) \<Rightarrow> byte list \<Rightarrow> 'h AnimationData option \<times> error option" where
  "Load hashName data =
     (let reader = FromBytes data;
          animdata = \<lparr>hashTable = Map.empty, blocks = [], entries = Map.empty\<rparr>;
          hashIdx = 0
      in case loadBlocks hashName hashIdx [0..<numBlocks] (animdata, reader) of
           Inl err \<Rightarrow> (None, Some err)
         | Inr (animdata, reader) \<Rightarrow>
             if Position reader \<noteq> length data then (None, Some UnableToParse)
             else (Some animdata, None))"

section \<open>Closed forms of the composite decoder\<close>

text \<open>
  What the header of a buffer declares, where each region of the format starts, and the
  document a buffer decodes to, written without loops. They are used to state and prove
  the properties below; the lemmas relate them to the decoder.
\<close>

definition priorityOf :: "nat \<Rightarrow> nat \<Rightarrow> nat \<Rightarrow> byte list \<Rightarrow> CompositeType list list list" where
  "priorityOf D F L pb =
     map (\<lambda>d. map (\<lambda>f. map (\<lambda>j. uint (pb ! ((d * F + f) * L + j))) [0..<L]) [0..<F]) [0..<D]"

definition declaredLayers :: "byte list \<Rightarrow> nat" where
  "declaredLayers data = unat (data ! headerNumLayers)"

definition declaredFrames :: "byte list \<Rightarrow> nat" where
  "declaredFrames data = unat (data ! headerFramesPerDir)"

definition declaredDirections :: "byte list \<Rightarrow> nat" where
  "declaredDirections data = unat (data ! headerNumDirs)"

definition layersOffset :: nat where
  "layersOffset = numHeaderBytes + numUnknownBodyBytes"

definition framesOffset :: "byte list \<Rightarrow> nat" where
  "framesOffset data = layersOffset + numLayerBytes * declaredLayers data"

definition priorityOffset :: "byte list \<Rightarrow> nat" where
  "priorityOffset data = framesOffset data + declaredFrames data"

definition declaredSize :: "byte list \<Rightarrow> nat" where
  "declaredSize data =
     priorityOffset data
       + declaredDirections data * (declaredFrames data * declaredLayers data)"

definition layerBytes :: "byte list \<Rightarrow> nat \<Rightarrow> byte list" where
  "layerBytes data k = take numLayerBytes (drop (layersOffset + numLayerBytes * k) data)"

definition decodedLayers ::
  "(string \<Rightarrow> WeaponClass) \<Rightarrow> (string \<Rightarrow> string) \<Rightarrow> byte list \<Rightarrow> CofLayer list" where
  "decodedLayers wcFromString trimSpace data =
     map (\<lambda>k. layerOfBytes wcFromString trimSpace (layerBytes data k))
       [0..<declaredLayers data]"

definition lastIndexMap :: "CofLayer list \<Rightarrow> (CompositeType \<rightharpoonup> int)" where
  "lastIndexMap ls = map_of (rev (map (\<lambda>k. (Type (ls ! k), int k)) [0..<length ls]))"

definition decodedCOF ::
  "(string \<Rightarrow> WeaponClass) \<Rightarrow> (string \<Rightarrow> string) \<Rightarrow> byte list \<Rightarrow> COF" where
  "decodedCOF wcFromString trimSpace data =
     \<lparr>unknownHeaderBytes = take numUnknownHeaderBytes (drop (headerNumDirs + 1) data),
      unknownBodyBytes = take numUnknownBodyBytes (drop numHeaderBytes data),
      NumberOfDirections = int (declaredDirections data),
      FramesPerDirection = int (declaredFrames data),
      NumberOfLayers = int (declaredLayers data),
      Speed = uint (data ! headerSpeed),
      CofLayers = decodedLayers wcFromString trimSpace data,
      CompositeLayers = lastIndexMap (decodedLayers wcFromString trimSpace data),
      AnimationFrames = map uint (take (declaredFrames data) (drop (framesOffset data) data)),
      Priority = priorityOf (declaredDirections data) (declaredFrames data) (declaredLayers data)
                   (take (declaredDirections data * (declaredFrames data * declaredLayers data))
                      (drop (priorityOffset data) data))\<rparr>"

text \<open>
  The bytes one turn of the layer loop of \<open>Marshal\<close> writes, and the strings whose
  bytes are all below 128.
\<close>

definition isASCII :: "string \<Rightarrow> bool" where
  "isASCII s \<longleftrightarrow> (\<forall>ch \<in> set s. (of_char ch :: nat) < 128)"

definition encodedLayer :: "(WeaponClass \<Rightarrow> string) \<Rightarrow> CofLayer \<Rightarrow> byte list" where
  "encodedLayer wcString layer = marshalLayer wcString layer []"

text \<open>
  A layer descriptor that the encoder gives back as it is: both flag bytes are 0 or 1,
  and the weapon-class field is a code of three ASCII characters and the terminator,
  which the two tables of the enumeration take to a weapon class and back to itself.
\<close>

definition canonicalLayerBytes ::
  "(string \<Rightarrow> WeaponClass) \<Rightarrow> (WeaponClass \<Rightarrow> string) \<Rightarrow> (string \<Rightarrow> string)
     \<Rightarrow> byte list \<Rightarrow> bool" where
  "canonicalLayerBytes wcFromString wcString trimSpace b \<longleftrightarrow>
     (let code = wcString (wcFromString (trimSpace (stripZeros
                   (string_of_bytes (drop layerWeaponClass b)))))
      in b ! layerSelectable \<le> 1 \<and> b ! layerTransparent \<le> 1
         \<and> isASCII code \<and> length code = maxCodeLength
         \<and> drop layerWeaponClass b = map byte_of_char code @ [terminator])"

section \<open>Example inputs\<close>

text \<open>
  A small weapon-class table and an ASCII version of \<open>strings.TrimSpace\<close>, to run the
  decoder and the encoder on concrete buffers.
\<close>

definition exFromString :: "string \<Rightarrow> WeaponClass" where
  "exFromString s = (if s = ''hth'' then 1 else if s = ''bow'' then 2 else 0)"

definition exString :: "WeaponClass \<Rightarrow> string" where
  "exString w = (if w = 1 then ''hth'' else if w = 2 then ''bow'' else [])"

text \<open>A table that gives every weapon class a string of seven characters.\<close>

definition exLongString :: "WeaponClass \<Rightarrow> string" where
  "exLongString w = ''abcdefg''"

definition asciiSpace :: "char \<Rightarrow> bool" where
  "asciiSpace ch \<longleftrightarrow> (of_char ch :: nat) \<in> {9, 10, 11, 12, 13, 32}"

definition exTrimSpace :: "string \<Rightarrow> string" where
  "exTrimSpace s = rev (dropWhile asciiSpace (rev (dropWhile asciiSpace s)))"

text \<open>
  A composite file of two layers, one frame per direction and two directions: the header,
  the three body bytes, the layers (both of type 1, with weapon classes \<open>hth\<close> and
  \<open>bow\<close>), one frame event and four priority bytes.
\<close>

definition exampleCOF :: "byte list" where
  "exampleCOF =
     [2, 1, 2] @ replicate 21 0 @ [9] @ [0, 0, 0]
     @ [1, 1, 1, 0, 0, 104, 116, 104, 0]
     @ [1, 0, 0, 1, 3, 98, 111, 119, 0]
     @ [1]
     @ [5, 6, 7, 8]"

text \<open>
  The same file with the selectable byte of its first layer set to 2, and a file of one
  layer whose weapon-class field holds no code.
\<close>

definition exampleFlag2 :: "byte list" where
  "exampleFlag2 =
     [2, 1, 2] @ replicate 21 0 @ [9] @ [0, 0, 0]
     @ [1, 1, 2, 0, 0, 104, 116, 104, 0]
     @ [1, 0, 0, 1, 3, 98, 111, 119, 0]
     @ [1]
     @ [5, 6, 7, 8]"

definition exampleNoWeapon :: "byte list" where
  "exampleNoWeapon =
     [1, 0, 0] @ replicate 21 0 @ [0] @ [0, 0, 0]
     @ [0, 0, 0, 0, 0, 0, 0, 0, 0]"

section \<open>Closed forms of the animation metadata decoder\<close>

text \<open>
  The change one decoded record makes to the store, the records of a store in the order
  of its blocks, and the store before the first block.
\<close>

definition addRecord ::
  "(string \<Rightarrow> 'h) \<Rightarrow> nat \<Rightarrow> AnimationDataRecord \<Rightarrow> 'h AnimationData \<Rightarrow> 'h AnimationData" where
  "addRecord hashName hashIdx r animdata =
     animdata\<lparr>hashTable := (hashTable animdata)(hashIdx \<mapsto> hashName (name r)),
              entries := (entries animdata)(name r \<mapsto> entriesAt animdata (name r) @ [r])\<rparr>"

definition allRecords :: "'h AnimationData \<Rightarrow> AnimationDataRecord list" where
  "allRecords animdata = concat (map records (blocks animdata))"

definition emptyAnimationData :: "'h AnimationData" where
  "emptyAnimationData = \<lparr>hashTable = Map.empty, blocks = [], entries = Map.empty\<rparr>"

text \<open>
  The layout of a well-formed file: each of its 256 buckets is four count bytes followed
  by as many records as they declare, at most 67; a record is 160 bytes, the eighth of
  them zero. The record a run of 160 bytes decodes to, and the store a list of buckets
  decodes to.
\<close>

definition eventsOfBytes :: "byte list \<Rightarrow> (int \<rightharpoonup> FrameEvent)" where
  "eventsOfBytes ev =
     (\<lambda>i. if 0 \<le> i \<and> nat i < length ev \<and> uint (ev ! nat i) \<noteq> EventNone
          then Some (uint (ev ! nat i)) else None)"

definition recordSize :: nat where
  "recordSize = byteCountName + 4 + 2 + byteCountSpeedPadding + numEvents"

definition recordOfBytes :: "byte list \<Rightarrow> AnimationDataRecord" where
  "recordOfBytes rb =
     \<lparr>name = stripZeros (string_of_bytes (take byteCountName rb)),
      framesPerDirection = AsUInt32 (take 4 (drop byteCountName rb)),
      speed = AsUInt16 (take 2 (drop (byteCountName + 4) rb)),
      events = eventsOfBytes (drop (byteCountName + 4 + 2 + byteCountSpeedPadding) rb)\<rparr>"

definition wellFormedRecord :: "byte list \<Rightarrow> bool" where
  "wellFormedRecord rb \<longleftrightarrow> length rb = recordSize \<and> rb ! (byteCountName - 1) = 0"

definition wellFormedBucket :: "byte list \<times> byte list list \<Rightarrow> bool" where
  "wellFormedBucket bk \<longleftrightarrow>
     (case bk of (cnt, rbs) \<Rightarrow>
        length cnt = 4 \<and> AsUInt32 cnt = of_nat (length rbs)
        \<and> length rbs \<le> unat maxRecordsPerBlock
        \<and> (\<forall>rb \<in> set rbs. wellFormedRecord rb))"

definition bucketBytes :: "byte list \<times> byte list list \<Rightarrow> byte list" where
  "bucketBytes bk = (case bk of (cnt, rbs) \<Rightarrow> cnt @ concat rbs)"

definition blockOfBucket :: "byte list \<times> byte list list \<Rightarrow> block" where
  "blockOfBucket bk =
     (case bk of (cnt, rbs) \<Rightarrow> \<lparr>recordCount = AsUInt32 cnt, records = map recordOfBytes rbs\<rparr>)"

definition decodedStore ::
  "(string \<Rightarrow> 'h) \<Rightarrow> (byte list \<times> byte list list) list \<Rightarrow> 'h AnimationData" where
  "decodedStore hashName bks =
     (fold (addRecord hashName 0) (concat (map (records \<circ> blockOfBucket) bks))
        emptyAnimationData)
       \<lparr>blocks := map blockOfBucket bks\<rparr>"

text \<open>
  Example files: a record with a given name and frame count and one attack event; a file
  whose first two buckets hold two records each, the name \<open>A1\<close> in both; a file
  whose first bucket holds 67 records; the first two buckets of a file whose second
  bucket declares 68 records.
\<close>

definition exampleRecord :: "byte list \<Rightarrow> byte \<Rightarrow> byte list" where
  "exampleRecord nm fr =
     nm @ replicate (8 - length nm) 0 @ [fr, 0, 0, 0] @ [0, 1] @ [0, 0]
     @ [0, 1] @ replicate 142 0"

definition exampleBuckets :: "(byte list \<times> byte list list) list" where
  "exampleBuckets =
     [([2, 0, 0, 0], [exampleRecord [65, 49] 8, exampleRecord [66] 3]),
      ([2, 0, 0, 0], [exampleRecord [65, 49] 9, exampleRecord [67] 4])]
     @ replicate 254 ([0, 0, 0, 0], [])"

definition exampleAnimData :: "byte list" where
  "exampleAnimData = concat (map bucketBytes exampleBuckets)"

definition bucketOf67 :: "byte list \<times> byte list list" where
  "bucketOf67 = ([67, 0, 0, 0], replicate 67 (exampleRecord [65] 1))"

definition file67 :: "byte list" where
  "file67 = [67, 0, 0, 0] @ concat (replicate 67 (exampleRecord [65] 1)) @ replicate 1020 0"

definition fileTooMany :: "byte list" where
  "fileTooMany = [0, 0, 0, 0] @ [68, 0, 0, 0]"

section \<open>The composite decoder computes the closed form\<close>

lemma Next_AsBytes_Inr:
  "Next_AsBytes n r = Inr (bs, r') \<longleftrightarrow>
     pos r + n \<le> length (buf r) \<and> bs = take n (drop (pos r) (buf r)) \<and> r' = r\<lparr>pos := pos r + n\<rparr>"
  by (auto simp: Next_AsBytes_def)

lemma Next_AsBytes_Inl:
  "Next_AsBytes n r = Inl e \<longleftrightarrow> \<not> pos r + n \<le> length (buf r) \<and> e = OutOfData"
  by (auto simp: Next_AsBytes_def)

lemma take_Suc_update: "i < length xs \<Longrightarrow> take (Suc i) (xs[i := v]) = take i xs @ [v]"
  by (simp add: take_Suc_conv_app_nth)

lemma map_upt_shift: "map f [0..<Suc k] = f 0 # map (\<lambda>j. f (Suc j)) [0..<k]"
  by (simp add: map_upt_Suc del: upt_Suc)

lemma loadPriority_layers_spec:
  assumes "direction < length P" "frame < length (P ! direction)"
    and "length (P ! direction ! frame) = nat (NumberOfLayers c)"
    and "priorityIndex + (nat (NumberOfLayers c) - i) \<le> length pb"
    and "i \<le> nat (NumberOfLayers c)"
  shows "loadPriority_layers c pb direction frame i (P, priorityIndex) =
          Inr (P[direction := (P ! direction)[frame := take i (P ! direction ! frame) @
                  map (\<lambda>j. uint (pb ! (priorityIndex + j))) [0..<nat (NumberOfLayers c) - i]]],
               priorityIndex + (nat (NumberOfLayers c) - i))"
  using assms
proof (induction "nat (NumberOfLayers c) - i" arbitrary: i P priorityIndex)
  case 0
  then have "\<not> int i < NumberOfLayers c" by linarith
  with 0 show ?case by (subst loadPriority_layers.simps) simp
next
  case (Suc k)
  let ?row = "P ! direction ! frame"
  let ?v = "uint (pb ! priorityIndex)"
  let ?P' = "P[direction := (P ! direction)[frame := ?row[i := ?v]]]"
  from Suc have lt: "int i < NumberOfLayers c" and i: "i < length ?row" and k: "k = nat (NumberOfLayers c) - Suc i"
    and idx: "priorityIndex < length pb" by linarith+
  have IH: "loadPriority_layers c pb direction frame (Suc i) (?P', Suc priorityIndex) =
     Inr (?P'[direction := (?P' ! direction)[frame := take (Suc i) (?P' ! direction ! frame) @
                  map (\<lambda>j. uint (pb ! (Suc priorityIndex + j))) [0..<nat (NumberOfLayers c) - Suc i]]],
               Suc priorityIndex + (nat (NumberOfLayers c) - Suc i))"
    using Suc.prems k lt i idx by (intro Suc.hyps(1)) auto
  have "nat (NumberOfLayers c) - i = Suc k" using Suc by simp
  then show ?case
    using lt i idx Suc.prems(1,2) 
    by (subst loadPriority_layers.simps) (simp add: IH take_Suc_update map_upt_shift k del: upt_Suc)
qed

lemma loadPriority_frames_spec:
  assumes "direction < length P" 
    and "length (P ! direction) = nat (FramesPerDirection c)"
    and "frame \<le> nat (FramesPerDirection c)"
    and "0 \<le> NumberOfLayers c"
    and "priorityIndex + (nat (FramesPerDirection c) - frame) * nat (NumberOfLayers c) \<le> length pb"
  shows "loadPriority_frames c pb direction frame (P, priorityIndex) =
          Inr (P[direction := take frame (P ! direction) @
                  map (\<lambda>f. map (\<lambda>j. uint (pb ! (priorityIndex + f * nat (NumberOfLayers c) + j)))
                         [0..<nat (NumberOfLayers c)])
                      [0..<nat (FramesPerDirection c) - frame]],
               priorityIndex + (nat (FramesPerDirection c) - frame) * nat (NumberOfLayers c))"
  using assms
proof (induction "nat (FramesPerDirection c) - frame" arbitrary: frame P priorityIndex)
  case 0
  then have "\<not> int frame < FramesPerDirection c" by linarith
  with 0 show ?case by (subst loadPriority_frames.simps) simp
next
  case (Suc k)
  let ?L = "nat (NumberOfLayers c)"
  let ?row = "map (\<lambda>j. uint (pb ! (priorityIndex + j))) [0..<?L]"
  let ?P1 = "P[direction := (P ! direction)[frame := replicate ?L 0]]"
  let ?P2 = "P[direction := (P ! direction)[frame := ?row]]"
  from Suc have lt: "int frame < FramesPerDirection c" and fr: "frame < length (P ! direction)"
    and k: "k = nat (FramesPerDirection c) - Suc frame" and Sk: "nat (FramesPerDirection c) - frame = Suc k"
    by linarith+
  from Suc.prems(5) Sk have idx: "priorityIndex + ?L + k * ?L \<le> length pb"
    by (simp add: algebra_simps)
  have inner: "loadPriority_layers c pb direction frame 0 (?P1, priorityIndex) = Inr (?P2, priorityIndex + ?L)"
    using Suc.prems(1) fr idx
    by (subst loadPriority_layers_spec) simp_all
  have IH: "loadPriority_frames c pb direction (Suc frame) (?P2, priorityIndex + ?L) =
     Inr (?P2[direction := take (Suc frame) (?P2 ! direction) @
                  map (\<lambda>f. map (\<lambda>j. uint (pb ! (priorityIndex + ?L + f * ?L + j))) [0..<?L])
                      [0..<nat (FramesPerDirection c) - Suc frame]],
               priorityIndex + ?L + (nat (FramesPerDirection c) - Suc frame) * ?L)"
    using Suc.prems k lt fr idx by (intro Suc.hyps(1)) auto
  show ?case
    using lt fr Suc.prems(1,4)
    by (subst loadPriority_frames.simps)
       (simp add: inner IH Sk take_Suc_update map_upt_shift k [symmetric] add.assoc add.left_commute del: upt_Suc)
qed

lemma loadPriority_directions_spec:
  assumes "length P = nat (NumberOfDirections c)"
    and "direction \<le> nat (NumberOfDirections c)"
    and "0 \<le> NumberOfLayers c" and "0 \<le> FramesPerDirection c"
    and "priorityIndex + (nat (NumberOfDirections c) - direction) *
           (nat (FramesPerDirection c) * nat (NumberOfLayers c)) \<le> length pb"
  shows "loadPriority_directions c pb direction (P, priorityIndex) =
          Inr (take direction P @
                  map (\<lambda>d. map (\<lambda>f. map (\<lambda>j. uint (pb ! (priorityIndex +
                          d * (nat (FramesPerDirection c) * nat (NumberOfLayers c)) +
                          f * nat (NumberOfLayers c) + j)))
                         [0..<nat (NumberOfLayers c)])
                      [0..<nat (FramesPerDirection c)])
                    [0..<nat (NumberOfDirections c) - direction],
               priorityIndex + (nat (NumberOfDirections c) - direction) *
                 (nat (FramesPerDirection c) * nat (NumberOfLayers c)))"
  using assms
proof (induction "nat (NumberOfDirections c) - direction" arbitrary: direction P priorityIndex)
  case 0
  then have "\<not> int direction < NumberOfDirections c" by linarith
  with 0 show ?case by (subst loadPriority_directions.simps) simp
next
  case (Suc k)
  let ?L = "nat (NumberOfLayers c)"
  let ?F = "nat (FramesPerDirection c)"
  let ?plane = "map (\<lambda>f. map (\<lambda>j. uint (pb ! (priorityIndex + f * ?L + j))) [0..<?L]) [0..<?F]"
  let ?P1 = "P[direction := replicate ?F []]"
  let ?P2 = "P[direction := ?plane]"
  from Suc have lt: "int direction < NumberOfDirections c" and dr: "direction < length P"
    and k: "k = nat (NumberOfDirections c) - Suc direction"
    and Sk: "nat (NumberOfDirections c) - direction = Suc k"
    by linarith+
  from Suc.prems(5) Sk have idx: "priorityIndex + ?F * ?L + k * (?F * ?L) \<le> length pb"
    by (simp add: algebra_simps)
  have inner: "loadPriority_frames c pb direction 0 (?P1, priorityIndex) =
                 Inr (?P2, priorityIndex + ?F * ?L)"
    using Suc.prems(3) dr idx
    by (subst loadPriority_frames_spec) simp_all
  have IH: "loadPriority_directions c pb (Suc direction) (?P2, priorityIndex + ?F * ?L) =
     Inr (take (Suc direction) ?P2 @
                  map (\<lambda>d. map (\<lambda>f. map (\<lambda>j. uint (pb ! (priorityIndex + ?F * ?L +
                          d * (?F * ?L) + f * ?L + j))) [0..<?L]) [0..<?F])
                    [0..<nat (NumberOfDirections c) - Suc direction],
               priorityIndex + ?F * ?L + (nat (NumberOfDirections c) - Suc direction) * (?F * ?L))"
    using Suc.prems k lt dr idx by (intro Suc.hyps(1)) auto
  have step: "loadPriority_directions c pb direction (P, priorityIndex) =
                loadPriority_directions c pb (Suc direction) (?P2, priorityIndex + ?F * ?L)"
    using lt dr Suc.prems(3,4)
    by (subst loadPriority_directions.simps) (simp add: inner)
  show ?case
    using dr unfolding step IH Sk k [symmetric]
    by (simp add: take_Suc_update map_upt_shift algebra_simps del: upt_Suc)
qed

lemma loadPriority_spec:
  assumes "Priority c = replicate (nat (NumberOfDirections c)) []"
    and "0 \<le> NumberOfLayers c" and "0 \<le> FramesPerDirection c"
    and "nat (NumberOfDirections c) * (nat (FramesPerDirection c) * nat (NumberOfLayers c)) \<le> length pb"
  shows "loadPriority c pb = Inr (c\<lparr>Priority :=
           priorityOf (nat (NumberOfDirections c)) (nat (FramesPerDirection c)) (nat (NumberOfLayers c)) pb\<rparr>)"
  using assms
  by (simp add: loadPriority_def loadPriority_directions_spec priorityOf_def algebra_simps)

lemma loadHeader_ok:
  "length b = numHeaderBytes \<Longrightarrow>
   loadHeader c b = Inr (c\<lparr>NumberOfLayers := uint (b ! 0),
                  FramesPerDirection := uint (b ! 1),
                  NumberOfDirections := uint (b ! 2),
                  unknownHeaderBytes := take 21 (drop 3 b),
                  Speed := uint (b ! 24)\<rparr>)"
  by (simp add: loadHeader_def numHeaderBytes_def numUnknownHeaderBytes_def headerSpeed_def
      headerNumLayers_def headerFramesPerDir_def headerNumDirs_def)

lemma map_add_upd_left: "m ++ ([k \<mapsto> v] ++ M) = m(k \<mapsto> v) ++ M"
  by (rule ext) (simp add: map_add_def split: option.splits)

lemma loadCOFLayers_from_spec:
  assumes "length (CofLayers c) = nat (NumberOfLayers c)"
    and "i \<le> nat (NumberOfLayers c)"
    and "pos s + numLayerBytes * (nat (NumberOfLayers c) - i) \<le> length (buf s)"
  shows "loadCOFLayers_from wcfs trim i c s =
          (c\<lparr>CofLayers := take i (CofLayers c) @
                 map (\<lambda>k. layerOfBytes wcfs trim
                        (take numLayerBytes (drop (pos s + numLayerBytes * k) (buf s))))
                     [0..<nat (NumberOfLayers c) - i],
              CompositeLayers := CompositeLayers c ++
                 map_of (rev (map (\<lambda>k. (Type (layerOfBytes wcfs trim
                        (take numLayerBytes (drop (pos s + numLayerBytes * k) (buf s)))), int (i + k)))
                     [0..<nat (NumberOfLayers c) - i]))\<rparr>,
           s\<lparr>pos := pos s + numLayerBytes * (nat (NumberOfLayers c) - i)\<rparr>, None)"
  using assms
proof (induction "nat (NumberOfLayers c) - i" arbitrary: i c s)
  case 0
  then have "\<not> int i < NumberOfLayers c" by linarith
  with 0 show ?case by (subst loadCOFLayers_from.simps) simp
next
  case (Suc k)
  let ?b = "take numLayerBytes (drop (pos s) (buf s))"
  let ?layer = "layerOfBytes wcfs trim ?b"
  let ?c1 = "c\<lparr>CofLayers := (CofLayers c)[i := ?layer],
               CompositeLayers := (CompositeLayers c)(Type ?layer \<mapsto> int i)\<rparr>"
  let ?s1 = "s\<lparr>pos := pos s + numLayerBytes\<rparr>"
  from Suc have lt: "int i < NumberOfLayers c" and il: "i < length (CofLayers c)"
    and k: "k = nat (NumberOfLayers c) - Suc i"
    and Sk: "nat (NumberOfLayers c) - i = Suc k"
    by linarith+
  from Suc.prems(3) Sk have rd: "pos s + numLayerBytes + numLayerBytes * k \<le> length (buf s)"
    by simp
  then have rd1: "pos s + numLayerBytes \<le> length (buf s)" by simp
  have step: "loadCOFLayers_from wcfs trim i c s = loadCOFLayers_from wcfs trim (Suc i) ?c1 ?s1"
    using lt il rd1
    by (subst loadCOFLayers_from.simps) (simp add: Next_AsBytes_def Let_def)
  have IH: "loadCOFLayers_from wcfs trim (Suc i) ?c1 ?s1 =
          (?c1\<lparr>CofLayers := take (Suc i) (CofLayers ?c1) @
                 map (\<lambda>k. layerOfBytes wcfs trim
                        (take numLayerBytes (drop (pos ?s1 + numLayerBytes * k) (buf ?s1))))
                     [0..<nat (NumberOfLayers ?c1) - Suc i],
              CompositeLayers := CompositeLayers ?c1 ++
                 map_of (rev (map (\<lambda>k. (Type (layerOfBytes wcfs trim
                        (take numLayerBytes (drop (pos ?s1 + numLayerBytes * k) (buf ?s1)))), int (Suc i + k)))
                     [0..<nat (NumberOfLayers ?c1) - Suc i]))\<rparr>,
           ?s1\<lparr>pos := pos ?s1 + numLayerBytes * (nat (NumberOfLayers ?c1) - Suc i)\<rparr>, None)"
    using Suc.prems k lt il rd by (intro Suc.hyps(1)) auto
  show ?case
    using il unfolding step IH Sk
    by (simp add: k [symmetric] take_Suc_update map_upt_shift map_add_upd_left
                  add.assoc add.left_commute del: upt_Suc)
qed

lemma loadAnimationFrames_from_spec:
  "i + length xs \<le> length fr \<Longrightarrow>
   loadAnimationFrames_from i xs fr = Inr (take i fr @ map uint xs @ drop (i + length xs) fr)"
proof (induction xs arbitrary: i fr)
  case Nil
  then show ?case by simp
next
  case (Cons x xs)
  then have "i < length fr" by simp
  with Cons show ?case
    by (simp add: take_Suc_update drop_update_cancel)
qed

lemma loadAnimationFrames_spec:
  "length b = nat (FramesPerDirection c) \<Longrightarrow> 0 \<le> FramesPerDirection c \<Longrightarrow>
   loadAnimationFrames c b = Inr (c\<lparr>AnimationFrames := map uint b\<rparr>)"
  by (simp add: loadAnimationFrames_def loadAnimationFrames_from_spec)

lemma loadCOFLayers_from_short:
  assumes "length (CofLayers c) = nat (NumberOfLayers c)"
    and "i \<le> nat (NumberOfLayers c)"
    and "\<not> pos s + numLayerBytes * (nat (NumberOfLayers c) - i) \<le> length (buf s)"
    and "pos s \<le> length (buf s)"
  shows "snd (snd (loadCOFLayers_from wcfs trim i c s)) = Some OutOfData"
  using assms
proof (induction "nat (NumberOfLayers c) - i" arbitrary: i c s)
  case 0
  then show ?case by simp
next
  case (Suc k)
  let ?b = "take numLayerBytes (drop (pos s) (buf s))"
  let ?layer = "layerOfBytes wcfs trim ?b"
  let ?c1 = "c\<lparr>CofLayers := (CofLayers c)[i := ?layer],
               CompositeLayers := (CompositeLayers c)(Type ?layer \<mapsto> int i)\<rparr>"
  let ?s1 = "s\<lparr>pos := pos s + numLayerBytes\<rparr>"
  from Suc have lt: "int i < NumberOfLayers c" and il: "i < length (CofLayers c)"
    and k: "k = nat (NumberOfLayers c) - Suc i"
    and Sk: "nat (NumberOfLayers c) - i = Suc k"
    by linarith+
  show ?case
  proof (cases "pos s + numLayerBytes \<le> length (buf s)")
    case False
    then show ?thesis using lt
      by (subst loadCOFLayers_from.simps) (simp add: Next_AsBytes_def)
  next
    case True
    have step: "loadCOFLayers_from wcfs trim i c s = loadCOFLayers_from wcfs trim (Suc i) ?c1 ?s1"
      using lt il True
      by (subst loadCOFLayers_from.simps) (simp add: Next_AsBytes_def Let_def)
    from Suc.prems(3) Sk
    have "\<not> pos ?s1 + numLayerBytes * (nat (NumberOfLayers ?c1) - Suc i) \<le> length (buf ?s1)"
      by (simp add: k [symmetric])
    then have "snd (snd (loadCOFLayers_from wcfs trim (Suc i) ?c1 ?s1)) = Some OutOfData"
      using Suc.prems k lt il True by (intro Suc.hyps(1)) auto
    then show ?thesis unfolding step .
  qed
qed

lemma lastIndexMap_map_upt:
  "lastIndexMap (map f [0..<n]) = map_of (rev (map (\<lambda>k. (Type (f k), int k)) [0..<n]))"
proof -
  have eq: "map (\<lambda>k. (Type (map f [0..<n] ! k), int k)) [0..<n]
          = map (\<lambda>k. (Type (f k), int k)) [0..<n]"
    by (rule map_cong) simp_all
  show ?thesis unfolding lastIndexMap_def length_map length_upt diff_zero eq ..
qed

lemmas cof_consts = numHeaderBytes_def numUnknownHeaderBytes_def numUnknownBodyBytes_def
  numLayerBytes_def headerNumLayers_def headerFramesPerDir_def headerNumDirs_def headerSpeed_def
  layersOffset_def

lemma COF_Unmarshal_ok:
  assumes "numHeaderBytes \<le> length data" and "declaredSize data \<le> length data"
  shows "COF_Unmarshal wcfs trim c data = (decodedCOF wcfs trim data, None)"
proof -
  let ?L = "declaredLayers data" and ?F = "declaredFrames data" and ?D = "declaredDirections data"
  let ?hb = "take numHeaderBytes data"
  have h0: "?hb ! 0 = data ! 0" "?hb ! 1 = data ! 1" "?hb ! 2 = data ! 2" "?hb ! 24 = data ! 24"
    by (simp_all add: cof_consts)
  have sz: "28 + 9 * ?L + ?F + ?D * (?F * ?L) \<le> length data"
    using assms(2) by (simp add: declaredSize_def priorityOffset_def framesOffset_def cof_consts)
  let ?c1 = "c\<lparr>NumberOfLayers := int ?L, FramesPerDirection := int ?F,
                NumberOfDirections := int ?D,
                unknownHeaderBytes := take 21 (drop 3 data),
                Speed := uint (data ! 24)\<rparr>"
  have hdr: "loadHeader c ?hb = Inr ?c1"
    using assms(1) h0
    by (subst loadHeader_ok)
       (simp_all add: declaredLayers_def declaredFrames_def declaredDirections_def cof_consts
          min_def take_drop)
  have prlen: "nat (int ?F * int ?D * int ?L) = ?D * (?F * ?L)"
    by (simp add: nat_mult_distrib mult.assoc mult.left_commute flip: of_nat_mult)
  show ?thesis
    using assms(1) sz
    unfolding COF_Unmarshal_def
    apply (simp add: Next_AsBytes_def FromBytes_def hdr Let_def)
    apply (simp add: cof_consts loadCOFLayers_def loadCOFLayers_from_spec)
    apply (simp add: loadAnimationFrames_spec prlen)
    apply (simp add: Let_def Next_AsBytes_def loadPriority_spec)
    apply (cases c)
    apply (simp add: decodedCOF_def priorityOffset_def framesOffset_def cof_consts add.assoc
             decodedLayers_def lastIndexMap_map_upt layerBytes_def)
    done
qed

lemma COF_Unmarshal_short:
  assumes "\<not> (numHeaderBytes \<le> length data \<and> declaredSize data \<le> length data)"
  shows "snd (COF_Unmarshal wcfs trim c data) = Some OutOfData"
proof (cases "numHeaderBytes \<le> length data")
  case False
  then show ?thesis
    by (simp add: COF_Unmarshal_def Next_AsBytes_def FromBytes_def)
next
  case hd: True
  let ?L = "declaredLayers data" and ?F = "declaredFrames data" and ?D = "declaredDirections data"
  let ?hb = "take numHeaderBytes data"
  have h0: "?hb ! 0 = data ! 0" "?hb ! 1 = data ! 1" "?hb ! 2 = data ! 2" "?hb ! 24 = data ! 24"
    by (simp_all add: cof_consts)
  have sz: "\<not> 28 + 9 * ?L + ?F + ?D * (?F * ?L) \<le> length data"
    using assms hd by (simp add: declaredSize_def priorityOffset_def framesOffset_def cof_consts)
  let ?c1 = "c\<lparr>NumberOfLayers := int ?L, FramesPerDirection := int ?F,
                NumberOfDirections := int ?D,
                unknownHeaderBytes := take 21 (drop 3 data),
                Speed := uint (data ! 24)\<rparr>"
  have hdr: "loadHeader c ?hb = Inr ?c1"
    using hd h0
    by (subst loadHeader_ok)
       (simp_all add: declaredLayers_def declaredFrames_def declaredDirections_def cof_consts
          min_def take_drop)
  have prlen: "nat (int ?F * int ?D * int ?L) = ?D * (?F * ?L)"
    by (simp add: nat_mult_distrib mult.assoc mult.left_commute flip: of_nat_mult)
  show ?thesis
  proof (cases "28 \<le> length data")
    case False
    then show ?thesis using hd
      unfolding COF_Unmarshal_def
      by (simp add: Next_AsBytes_def FromBytes_def hdr Let_def) (simp add: cof_consts)
  next
    case body: True
    show ?thesis
    proof (cases "28 + 9 * ?L \<le> length data")
      case False
      let ?c2 = "?c1\<lparr>unknownBodyBytes := take 3 (drop 25 data),
                   CofLayers := replicate ?L zeroCofLayer, CompositeLayers := Map.empty\<rparr>"
      have "snd (snd (loadCOFLayers_from wcfs trim 0 ?c2 \<lparr>buf = data, pos = 28\<rparr>)) = Some OutOfData"
        using False body by (intro loadCOFLayers_from_short) (simp_all add: cof_consts)
      then show ?thesis using hd body
        unfolding COF_Unmarshal_def
        apply (simp add: Next_AsBytes_def FromBytes_def hdr Let_def)
        apply (auto simp add: cof_consts loadCOFLayers_def split: prod.splits option.splits)
        done
    next
      case lay: True
      show ?thesis using hd body lay sz
        unfolding COF_Unmarshal_def
        apply (simp add: Next_AsBytes_def FromBytes_def hdr Let_def)
        apply (simp add: cof_consts loadCOFLayers_def loadCOFLayers_from_spec)
        apply (simp add: loadAnimationFrames_spec prlen)
        apply (simp add: Let_def Next_AsBytes_def)
        done
    qed
  qed
qed

lemma COF_Unmarshal_None_iff:
  "COF_Unmarshal wcfs trim c data = (c', None) \<longleftrightarrow>
     numHeaderBytes \<le> length data \<and> declaredSize data \<le> length data
       \<and> c' = decodedCOF wcfs trim data"
proof (cases "numHeaderBytes \<le> length data \<and> declaredSize data \<le> length data")
  case True
  then show ?thesis by (auto simp: COF_Unmarshal_ok)
next
  case False
  from COF_Unmarshal_short [OF this, of wcfs trim c] show ?thesis using False by auto
qed

lemma map_of_rev_upt_Some:
  "map_of (rev (map (\<lambda>k. (f k, g k)) [0..<n])) t = Some v \<Longrightarrow>
     \<exists>j<n. v = g j \<and> f j = t \<and> (\<forall>j'. j < j' \<and> j' < n \<longrightarrow> f j' \<noteq> t)"
proof (induction n)
  case 0
  then show ?case by simp
next
  case (Suc n)
  show ?case
  proof (cases "f n = t")
    case True
    with Suc.prems have "v = g n" by simp
    with True show ?thesis by (intro exI [of _ n]) auto
  next
    case False
    with Suc.prems have "map_of (rev (map (\<lambda>k. (f k, g k)) [0..<n])) t = Some v" by simp
    from Suc.IH [OF this] obtain j where j: "j < n" "v = g j" "f j = t"
      "\<forall>j'. j < j' \<and> j' < n \<longrightarrow> f j' \<noteq> t" by blast
    with False have "\<forall>j'. j < j' \<and> j' < Suc n \<longrightarrow> f j' \<noteq> t"
      by (auto simp: less_Suc_eq)
    with j show ?thesis by (intro exI [of _ j]) auto
  qed
qed

lemma lastIndexMap_Some:
  assumes "lastIndexMap ls t = Some v"
  shows "\<exists>j<length ls. v = int j \<and> Type (ls ! j) = t
           \<and> (\<forall>j'. j < j' \<and> j' < length ls \<longrightarrow> Type (ls ! j') \<noteq> t)"
  using assms unfolding lastIndexMap_def by (rule map_of_rev_upt_Some)

lemma lastIndexMap_dom: "dom (lastIndexMap ls) = Type ` set ls"
proof -
  have "dom (lastIndexMap ls) = (\<lambda>k. Type (ls ! k)) ` {0..<length ls}"
    by (simp add: lastIndexMap_def dom_map_of_conv_image_fst image_image)
  also have "\<dots> = Type ` set ls"
    by (force simp: in_set_conv_nth image_iff)
  finally show ?thesis .
qed

lemma length_priorityOf: "length (priorityOf D F L pb) = D"
  "d < D \<Longrightarrow> length (priorityOf D F L pb ! d) = F"
  "d < D \<Longrightarrow> f < F \<Longrightarrow> length (priorityOf D F L pb ! d ! f) = L"
  "d < D \<Longrightarrow> f < F \<Longrightarrow> i < L \<Longrightarrow> priorityOf D F L pb ! d ! f ! i = uint (pb ! ((d * F + f) * L + i))"
  by (simp_all add: priorityOf_def)

lemma priority_index_bound:
  assumes "d < D" "f < F" "i < (L::nat)"
  shows "(d * F + f) * L + i < D * (F * L)"
proof -
  have "(d * F + f) * L + i < (d * F + f) * L + L" using assms by simp
  also have "\<dots> = (d * F + Suc f) * L" by (simp add: algebra_simps)
  also have "\<dots> \<le> (d * F + F) * L" using assms by (intro mult_le_mono1) simp
  also have "\<dots> = Suc d * (F * L)" by (simp add: algebra_simps)
  also have "\<dots> \<le> D * (F * L)" using assms by (intro mult_le_mono1) simp
  finally show ?thesis .
qed

section \<open>The composite encoder\<close>

lemma writeWeaponCode_append: "writeWeaponCode xs sw = sw @ writeWeaponCode xs []"
proof (induction xs arbitrary: sw)
  case Nil
  show ?case by simp
next
  case (Cons x xs)
  obtain idx letter where x: "x = (idx, letter)" by (cases x)
  show ?case
    using Cons.IH [of "WriteByte (word_of_int letter) sw"]
          Cons.IH [of "WriteByte (word_of_int letter) []"]
    by (simp add: x WriteByte_def)
qed

lemma marshalLayer_append: "marshalLayer wcString layer sw = sw @ encodedLayer wcString layer"
  unfolding encodedLayer_def marshalLayer_def Let_def WriteByte_def
  by (subst writeWeaponCode_append, subst (2) writeWeaponCode_append) simp

lemma fold_marshalLayer:
  "fold (marshalLayer wcString) ls sw = sw @ concat (map (encodedLayer wcString) ls)"
  by (induction ls arbitrary: sw) (simp_all add: marshalLayer_append)

lemma fold_WriteByte:
  "fold (\<lambda>i. WriteByte (word_of_int i)) xs sw = sw @ map word_of_int xs"
  by (induction xs arbitrary: sw) (simp_all add: WriteByte_def)

lemma stringRange_ASCII_Cons:
  "(of_char ch :: nat) < 128 \<Longrightarrow>
   stringRange idx (ch # s) = (idx, int (of_char ch)) # stringRange (Suc idx) s"
  by (simp add: Let_def)

lemma writeWeaponCode_ASCII:
  "isASCII s \<Longrightarrow>
   writeWeaponCode (stringRange idx s) sw =
     sw @ map byte_of_char (take (Suc maxCodeLength - idx) s)"
proof (induction s arbitrary: idx sw)
  case Nil
  show ?case by simp
next
  case (Cons ch s)
  then have ch: "(of_char ch :: nat) < 128" and s: "isASCII s" by (simp_all add: isASCII_def)
  show ?case
  proof (cases "idx > maxCodeLength")
    case True
    then show ?thesis by (simp add: stringRange_ASCII_Cons [OF ch] del: stringRange.simps)
  next
    case False
    then have "Suc maxCodeLength - idx = Suc (Suc maxCodeLength - Suc idx)" by simp
    with False Cons.IH [OF s, of "Suc idx" "WriteByte (word_of_int (int (of_char ch))) sw"]
    show ?thesis
      by (simp add: stringRange_ASCII_Cons [OF ch] WriteByte_def byte_of_char_def
            del: stringRange.simps)
  qed
qed

lemma weaponCode_ASCII:
  assumes "isASCII s"
  shows "writeWeaponCode (stringRange 0 s) [] = map byte_of_char (take (Suc maxCodeLength) s)"
  using writeWeaponCode_ASCII [OF assms, of 0 "[]"] by simp

lemma encodedLayer_ASCII:
  assumes "isASCII (wcString (WeaponClass layer))"
  shows "encodedLayer wcString layer =
           [word_of_int (Type layer), Shadow layer,
            if Selectable layer then 1 else 0, if Transparent layer then 1 else 0,
            word_of_int (DrawEffect layer)]
           @ map byte_of_char (take (Suc maxCodeLength) (wcString (WeaponClass layer)))
           @ [terminator]"
  unfolding encodedLayer_def marshalLayer_def Let_def WriteByte_def
  by (subst writeWeaponCode_append) (simp add: weaponCode_ASCII [OF assms])

lemma marshalPriority_layers_spec:
  assumes "direction < length (Priority c)" "frame < length (Priority c ! direction)"
    and "nat (NumberOfLayers c) \<le> length (Priority c ! direction ! frame)"
    and "i \<le> nat (NumberOfLayers c)"
  shows "marshalPriority_layers c direction frame i sw =
           Inr (sw @ map (\<lambda>j. word_of_int (Priority c ! direction ! frame ! j))
                        [i..<nat (NumberOfLayers c)])"
  using assms
proof (induction "nat (NumberOfLayers c) - i" arbitrary: i sw)
  case 0
  then have "\<not> int i < NumberOfLayers c" by linarith
  with 0 show ?case by (subst marshalPriority_layers.simps) simp
next
  case (Suc k)
  then have lt: "int i < NumberOfLayers c" and il: "i < length (Priority c ! direction ! frame)"
    and k: "k = nat (NumberOfLayers c) - Suc i" and iL: "i < nat (NumberOfLayers c)"
    by linarith+
  let ?b = "word_of_int (Priority c ! direction ! frame ! i) :: byte"
  have IH: "marshalPriority_layers c direction frame (Suc i) (sw @ [?b]) =
            Inr ((sw @ [?b])
                 @ map (\<lambda>j. word_of_int (Priority c ! direction ! frame ! j))
                        [Suc i..<nat (NumberOfLayers c)])"
    using Suc.prems k lt by (intro Suc.hyps(1)) auto
  have step: "marshalPriority_layers c direction frame i sw =
              marshalPriority_layers c direction frame (Suc i) (sw @ [?b])"
    using lt il Suc.prems(1,2)
    by (subst marshalPriority_layers.simps) (simp add: WriteByte_def)
  show ?case
    unfolding step IH using iL by (simp add: upt_rec [of i])
qed

lemma marshalPriority_frames_spec:
  assumes "direction < length (Priority c)"
    and "nat (FramesPerDirection c) \<le> length (Priority c ! direction)"
    and "\<forall>f < nat (FramesPerDirection c).
           nat (NumberOfLayers c) \<le> length (Priority c ! direction ! f)"
    and "frame \<le> nat (FramesPerDirection c)"
  shows "marshalPriority_frames c direction frame sw =
           Inr (sw @ concat (map (\<lambda>f. map (\<lambda>j. word_of_int (Priority c ! direction ! f ! j))
                                         [0..<nat (NumberOfLayers c)])
                               [frame..<nat (FramesPerDirection c)]))"
  using assms
proof (induction "nat (FramesPerDirection c) - frame" arbitrary: frame sw)
  case 0
  then have "\<not> int frame < FramesPerDirection c" by linarith
  with 0 show ?case by (subst marshalPriority_frames.simps) simp
next
  case (Suc k)
  let ?row = "map (\<lambda>j. word_of_int (Priority c ! direction ! frame ! j)) [0..<nat (NumberOfLayers c)]"
  from Suc have lt: "int frame < FramesPerDirection c"
    and fl: "frame < length (Priority c ! direction)"
    and k: "k = nat (FramesPerDirection c) - Suc frame"
    and fF: "frame < nat (FramesPerDirection c)"
    by linarith+
  have inner: "marshalPriority_layers c direction frame 0 sw = Inr (sw @ ?row)"
    using Suc.prems(1,3) fl fF by (intro marshalPriority_layers_spec) auto
  have IH: "marshalPriority_frames c direction (Suc frame) (sw @ ?row) =
           Inr ((sw @ ?row) @ concat (map (\<lambda>f. map (\<lambda>j. word_of_int (Priority c ! direction ! f ! j))
                                         [0..<nat (NumberOfLayers c)])
                               [Suc frame..<nat (FramesPerDirection c)]))"
    using Suc.prems k lt by (intro Suc.hyps(1)) auto
  show ?case
    using lt fF
    by (subst marshalPriority_frames.simps) (simp add: inner IH upt_rec [of frame])
qed

lemma marshalPriority_directions_spec:
  assumes "nat (NumberOfDirections c) \<le> length (Priority c)"
    and "\<forall>d < nat (NumberOfDirections c).
           nat (FramesPerDirection c) \<le> length (Priority c ! d) \<and>
           (\<forall>f < nat (FramesPerDirection c).
              nat (NumberOfLayers c) \<le> length (Priority c ! d ! f))"
    and "direction \<le> nat (NumberOfDirections c)"
  shows "marshalPriority_directions c direction sw =
           Inr (sw @ concat (map (\<lambda>d. concat (map (\<lambda>f.
                                 map (\<lambda>j. word_of_int (Priority c ! d ! f ! j))
                                     [0..<nat (NumberOfLayers c)])
                               [0..<nat (FramesPerDirection c)]))
                             [direction..<nat (NumberOfDirections c)]))"
  using assms
proof (induction "nat (NumberOfDirections c) - direction" arbitrary: direction sw)
  case 0
  then have "\<not> int direction < NumberOfDirections c" by linarith
  with 0 show ?case by (subst marshalPriority_directions.simps) simp
next
  case (Suc k)
  let ?plane = "concat (map (\<lambda>f. map (\<lambda>j. word_of_int (Priority c ! direction ! f ! j))
                                     [0..<nat (NumberOfLayers c)])
                           [0..<nat (FramesPerDirection c)])"
  from Suc have lt: "int direction < NumberOfDirections c"
    and dl: "direction < length (Priority c)"
    and k: "k = nat (NumberOfDirections c) - Suc direction"
    and dD: "direction < nat (NumberOfDirections c)"
    by linarith+
  have inner: "marshalPriority_frames c direction 0 sw = Inr (sw @ ?plane)"
    using Suc.prems(2) dl dD by (intro marshalPriority_frames_spec) auto
  have IH: "marshalPriority_directions c (Suc direction) (sw @ ?plane) =
           Inr ((sw @ ?plane) @ concat (map (\<lambda>d. concat (map (\<lambda>f.
                                 map (\<lambda>j. word_of_int (Priority c ! d ! f ! j))
                                     [0..<nat (NumberOfLayers c)])
                               [0..<nat (FramesPerDirection c)]))
                             [Suc direction..<nat (NumberOfDirections c)]))"
    using Suc.prems k lt by (intro Suc.hyps(1)) auto
  show ?case
    using lt dD
    by (subst marshalPriority_directions.simps) (simp add: inner IH upt_rec [of direction])
qed

lemma concat_map_rows:
  "concat (map (\<lambda>a. map (\<lambda>b. g (a * n + b)) [0..<n]) [0..<m]) = map g [0..<m * n]"
proof (induction m)
  case 0
  show ?case by simp
next
  case (Suc m)
  have "[0..<Suc m * n] = [0..<m * n] @ [m * n..<m * n + n]"
    using upt_add_eq_append [of 0 "m * n" n] by (simp add: add.commute)
  then have "map g [0..<Suc m * n] = map g [0..<m * n] @ map g [m * n..<m * n + n]"
    by simp
  also have "map g [m * n..<m * n + n] = map (\<lambda>b. g (m * n + b)) [0..<n]"
  proof -
    have "[m * n..<m * n + n] = map (\<lambda>i. i + m * n) [0..<n]"
      using map_add_upt [of "m * n" n] by (simp add: add.commute)
    then show ?thesis by (simp add: o_def add.commute)
  qed
  finally show ?case using Suc.IH by simp
qed

lemma marshalPriority_layers_prefix:
  "marshalPriority_layers c direction frame i sw = Inr out \<Longrightarrow> \<exists>tl. out = sw @ tl"
proof (induction c direction frame i sw rule: marshalPriority_layers.induct)
  case (1 c direction frame i sw)
  let ?ok = "direction < length (Priority c) \<and> frame < length (Priority c ! direction)
              \<and> i < length (Priority c ! direction ! frame)"
  let ?sw' = "WriteByte (word_of_int (Priority c ! direction ! frame ! i)) sw"
  show ?case
  proof (cases "int i < NumberOfLayers c")
    case False
    with "1.prems" have "out = sw" by (subst (asm) marshalPriority_layers.simps) simp
    then show ?thesis by simp
  next
    case lt: True
    show ?thesis
    proof (cases ?ok)
      case False
      with lt "1.prems" show ?thesis by (subst (asm) marshalPriority_layers.simps) auto
    next
      case True
      with lt "1.prems" have "marshalPriority_layers c direction frame (Suc i) ?sw' = Inr out"
        by (subst (asm) marshalPriority_layers.simps) simp
      from "1.IH" [OF lt True this] obtain tl where "out = ?sw' @ tl" by blast
      then show ?thesis by (simp add: WriteByte_def)
    qed
  qed
qed

lemma marshalPriority_frames_prefix:
  "marshalPriority_frames c direction frame sw = Inr out \<Longrightarrow> \<exists>tl. out = sw @ tl"
proof (induction c direction frame sw rule: marshalPriority_frames.induct)
  case (1 c direction frame sw)
  show ?case
  proof (cases "int frame < FramesPerDirection c")
    case False
    with "1.prems" have "out = sw" by (subst (asm) marshalPriority_frames.simps) simp
    then show ?thesis by simp
  next
    case lt: True
    with "1.prems" obtain sw' where
      inner: "marshalPriority_layers c direction frame 0 sw = Inr sw'"
      and rest: "marshalPriority_frames c direction (Suc frame) sw' = Inr out"
      by (subst (asm) marshalPriority_frames.simps) (auto split: sum.splits)
    from marshalPriority_layers_prefix [OF inner] obtain t1 where "sw' = sw @ t1" by blast
    moreover from "1.IH" [OF lt inner rest] obtain t2 where "out = sw' @ t2" by blast
    ultimately show ?thesis by simp
  qed
qed

lemma marshalPriority_directions_prefix:
  "marshalPriority_directions c direction sw = Inr out \<Longrightarrow> \<exists>tl. out = sw @ tl"
proof (induction c direction sw rule: marshalPriority_directions.induct)
  case (1 c direction sw)
  show ?case
  proof (cases "int direction < NumberOfDirections c")
    case False
    with "1.prems" have "out = sw" by (subst (asm) marshalPriority_directions.simps) simp
    then show ?thesis by simp
  next
    case lt: True
    with "1.prems" obtain sw' where
      inner: "marshalPriority_frames c direction 0 sw = Inr sw'"
      and rest: "marshalPriority_directions c (Suc direction) sw' = Inr out"
      by (subst (asm) marshalPriority_directions.simps) (auto split: sum.splits)
    from marshalPriority_frames_prefix [OF inner] obtain t1 where "sw' = sw @ t1" by blast
    moreover from "1.IH" [OF lt inner rest] obtain t2 where "out = sw' @ t2" by blast
    ultimately show ?thesis by simp
  qed
qed

lemma COF_Marshal_prefix:
  assumes "COF_Marshal wcString c = Inr out"
  shows "\<exists>tl. out = [word_of_int (NumberOfLayers c), word_of_int (FramesPerDirection c),
                      word_of_int (NumberOfDirections c)]
                     @ unknownHeaderBytes c @ [word_of_int (Speed c)] @ unknownBodyBytes c
                     @ concat (map (encodedLayer wcString) (CofLayers c))
                     @ map word_of_int (AnimationFrames c) @ tl"
  using marshalPriority_directions_prefix [OF assms [unfolded COF_Marshal_def Let_def]]
  by (auto simp: WriteByte_def WriteBytes_def fold_marshalLayer fold_WriteByte)

lemma map_nth_upt_take: "n \<le> length xs \<Longrightarrow> map ((!) xs) [0..<n] = take n xs"
  by (rule nth_equalityI) simp_all

lemma priorityOf_flat:
  assumes "D * (F * L) \<le> length pb"
  shows "concat (map (\<lambda>d. concat (map (\<lambda>f.
            map (\<lambda>j. (word_of_int (priorityOf D F L pb ! d ! f ! j) :: byte)) [0..<L])
              [0..<F])) [0..<D])
         = take (D * (F * L)) pb"
proof -
  have row: "map (\<lambda>j. (word_of_int (priorityOf D F L pb ! d ! f ! j) :: byte)) [0..<L]
             = map (\<lambda>j. pb ! (d * (F * L) + (f * L + j))) [0..<L]"
    if "d < D" "f < F" for d f
  proof (rule map_cong [OF refl])
    fix j assume "j \<in> set [0..<L]"
    then have "j < L" by simp
    from length_priorityOf(4) [OF that this, of pb]
    show "(word_of_int (priorityOf D F L pb ! d ! f ! j) :: byte) = pb ! (d * (F * L) + (f * L + j))"
      by (simp add: algebra_simps)
  qed
  have plane: "concat (map (\<lambda>f.
            map (\<lambda>j. (word_of_int (priorityOf D F L pb ! d ! f ! j) :: byte)) [0..<L]) [0..<F])
             = map (\<lambda>k. pb ! (d * (F * L) + k)) [0..<F * L]"
    if "d < D" for d
  proof -
    have eq: "map (\<lambda>f. map (\<lambda>j. (word_of_int (priorityOf D F L pb ! d ! f ! j) :: byte)) [0..<L]) [0..<F]
          = map (\<lambda>f. map (\<lambda>j. pb ! (d * (F * L) + (f * L + j))) [0..<L]) [0..<F]"
    proof (rule map_cong [OF refl])
      fix f assume "f \<in> set [0..<F]"
      then have "f < F" by simp
      from row [OF that this]
      show "map (\<lambda>j. (word_of_int (priorityOf D F L pb ! d ! f ! j) :: byte)) [0..<L]
            = map (\<lambda>j. pb ! (d * (F * L) + (f * L + j))) [0..<L]" .
    qed
    show ?thesis
      unfolding eq by (rule concat_map_rows [of "\<lambda>k. pb ! (d * (F * L) + k)" L F])
  qed
  have eq2: "map (\<lambda>d. concat (map (\<lambda>f.
            map (\<lambda>j. (word_of_int (priorityOf D F L pb ! d ! f ! j) :: byte)) [0..<L])
              [0..<F])) [0..<D]
        = map (\<lambda>d. map (\<lambda>k. pb ! (d * (F * L) + k)) [0..<F * L]) [0..<D]"
  proof (rule map_cong [OF refl])
    fix d assume "d \<in> set [0..<D]"
    then have "d < D" by simp
    from plane [OF this]
    show "concat (map (\<lambda>f.
            map (\<lambda>j. (word_of_int (priorityOf D F L pb ! d ! f ! j) :: byte)) [0..<L]) [0..<F])
          = map (\<lambda>k. pb ! (d * (F * L) + k)) [0..<F * L]" .
  qed
  show ?thesis
    unfolding eq2 concat_map_rows [of "(!) pb" "F * L" D]
    using assms by (simp add: map_nth_upt_take)
qed

lemma header_bytes:
  assumes "28 \<le> length (data :: byte list)"
  shows "[data ! 0, data ! 1, data ! 2] @ take 21 (drop 3 data) @ [data ! 24]
           @ take 3 (drop 25 data) = take 28 data"
proof -
  have "take 28 data = take 25 data @ take 3 (drop 25 data)"
    using take_add [of 25 3 data] by simp
  also have "take 25 data = take 24 data @ [data ! 24]"
    using assms take_Suc_conv_app_nth [of 24 data] by simp
  also have "take 24 data = take 3 data @ take 21 (drop 3 data)"
    using take_add [of 3 21 data] by simp
  also have "take 3 data = [data ! 0, data ! 1, data ! 2]"
  proof -
    from assms have "data \<noteq> []" by auto
    with assms show ?thesis
      using take_Suc_conv_app_nth [of 2 data] take_Suc_conv_app_nth [of 1 data]
        take_Suc_conv_app_nth [of 0 data]
      by (simp add: numeral_3_eq_3 numeral_2_eq_2)
  qed
  finally show ?thesis by simp
qed

lemma COF_Marshal_decoded:
  assumes "numHeaderBytes \<le> length data" and "declaredSize data \<le> length data"
  shows "COF_Marshal wcString (decodedCOF wcFromString trimSpace data) =
           Inr (take layersOffset data
                @ concat (map (encodedLayer wcString) (decodedLayers wcFromString trimSpace data))
                @ take (declaredSize data - framesOffset data) (drop (framesOffset data) data))"
proof -
  let ?c = "decodedCOF wcFromString trimSpace data"
  let ?L = "declaredLayers data" and ?F = "declaredFrames data" and ?D = "declaredDirections data"
  let ?pb = "take (?D * (?F * ?L)) (drop (priorityOffset data) data)"
  have f: "NumberOfLayers ?c = int ?L" "FramesPerDirection ?c = int ?F"
    "NumberOfDirections ?c = int ?D" "Priority ?c = priorityOf ?D ?F ?L ?pb"
    by (simp_all add: decodedCOF_def)
  have len: "28 \<le> length data" "?D * (?F * ?L) \<le> length ?pb"
    using assms
    by (simp_all add: declaredSize_def priorityOffset_def framesOffset_def cof_consts)
  have prio: "marshalPriority_directions ?c 0 sw = Inr (sw @ ?pb)" for sw
    using priorityOf_flat [OF len(2)]
    by (subst marshalPriority_directions_spec) (simp_all add: f length_priorityOf)
  have hdr: "[word_of_int (NumberOfLayers ?c), word_of_int (FramesPerDirection ?c),
              word_of_int (NumberOfDirections ?c)] @ unknownHeaderBytes ?c
             @ [word_of_int (Speed ?c)] @ unknownBodyBytes ?c = take layersOffset data"
    using header_bytes [OF len(1)]
    by (simp add: decodedCOF_def declaredLayers_def declaredFrames_def declaredDirections_def
          cof_consts)
  have frs: "map word_of_int (AnimationFrames ?c) = take ?F (drop (framesOffset data) data)"
    by (simp add: decodedCOF_def o_def)
  have tl: "take ?F (drop (framesOffset data) data) @ ?pb
            = take (declaredSize data - framesOffset data) (drop (framesOffset data) data)"
    using take_add [of ?F "?D * (?F * ?L)" "drop (framesOffset data) data"]
    by (simp add: declaredSize_def priorityOffset_def add.commute)
  have "COF_Marshal wcString ?c =
          Inr (([word_of_int (NumberOfLayers ?c), word_of_int (FramesPerDirection ?c),
              word_of_int (NumberOfDirections ?c)] @ unknownHeaderBytes ?c
             @ [word_of_int (Speed ?c)] @ unknownBodyBytes ?c)
             @ concat (map (encodedLayer wcString) (CofLayers ?c))
             @ map word_of_int (AnimationFrames ?c) @ ?pb)"
    unfolding COF_Marshal_def Let_def
    by (simp add: WriteByte_def WriteBytes_def fold_marshalLayer fold_WriteByte prio)
  also have "CofLayers ?c = decodedLayers wcFromString trimSpace data"
    by (simp add: decodedCOF_def)
  finally show ?thesis unfolding hdr frs by (simp add: tl)
qed

lemma uint_byte_of_int: "uint (word_of_int x :: byte) = x mod 256"
  by (simp add: uint_word_of_int)

lemma decoded_fields_range:
  "0 \<le> NumberOfLayers (decodedCOF wcfs trim data) \<and> NumberOfLayers (decodedCOF wcfs trim data) \<le> 255"
  "0 \<le> FramesPerDirection (decodedCOF wcfs trim data) \<and> FramesPerDirection (decodedCOF wcfs trim data) \<le> 255"
  "0 \<le> NumberOfDirections (decodedCOF wcfs trim data) \<and> NumberOfDirections (decodedCOF wcfs trim data) \<le> 255"
  "0 \<le> Speed (decodedCOF wcfs trim data) \<and> Speed (decodedCOF wcfs trim data) \<le> 255"
proof -
  have b: "unat (x :: byte) \<le> 255" "uint x \<le> 255" for x
    using unsigned_less [of x, where 'a = nat] uint_lt2p [of x] by simp_all
  show "0 \<le> NumberOfLayers (decodedCOF wcfs trim data) \<and> NumberOfLayers (decodedCOF wcfs trim data) \<le> 255"
  "0 \<le> FramesPerDirection (decodedCOF wcfs trim data) \<and> FramesPerDirection (decodedCOF wcfs trim data) \<le> 255"
  "0 \<le> NumberOfDirections (decodedCOF wcfs trim data) \<and> NumberOfDirections (decodedCOF wcfs trim data) \<le> 255"
  "0 \<le> Speed (decodedCOF wcfs trim data) \<and> Speed (decodedCOF wcfs trim data) \<le> 255"
    by (simp_all add: decodedCOF_def declaredLayers_def declaredFrames_def declaredDirections_def b)
qed

lemma Marshal_wrapped_example:
  "Marshal exString (New\<lparr>NumberOfLayers := - 1, Speed := 300\<rparr>)
     = Inr ([255, 0, 0] @ replicate 21 0 @ [44] @ replicate 3 0)"
  by (simp add: Marshal_def COF_Marshal_def New_def WriteByte_def WriteBytes_def
        marshalPriority_directions.simps cof_consts)

lemma concat_chunks:
  "concat (map (\<lambda>k. take n (drop (off + n * k) xs)) [0..<m]) = take (n * m) (drop off xs)"
proof (induction m)
  case 0
  show ?case by simp
next
  case (Suc m)
  have "take (n * Suc m) (drop off xs)
        = take (n * m) (drop off xs) @ take n (drop (n * m) (drop off xs))"
    using take_add [of "n * m" n "drop off xs"] by (simp add: add.commute)
  with Suc.IH show ?case by (simp add: add.commute)
qed

lemma byte_le_1: "(b :: byte) \<le> 1 \<Longrightarrow> (if b > 0 then 1 else 0) = b"
  by (auto simp: le_less word_less_1 word_gt_0)

lemma nine_bytes:
  assumes "length (b :: byte list) = 9"
  shows "b = [b ! 0, b ! 1, b ! 2, b ! 3, b ! 4] @ drop 5 b"
proof -
  have "take 5 b = [b ! 0, b ! 1, b ! 2, b ! 3, b ! 4]"
    using assms by (intro nth_equalityI) (auto simp: less_Suc_eq numeral_eq_Suc)
  then show ?thesis using append_take_drop_id [of 5 b] by simp
qed

lemma encodedLayer_canonical:
  assumes "length b = numLayerBytes"
    and "canonicalLayerBytes wcFromString wcString trimSpace b"
  shows "encodedLayer wcString (layerOfBytes wcFromString trimSpace b) = b"
proof -
  let ?code = "wcString (wcFromString (trimSpace (stripZeros
                   (string_of_bytes (drop layerWeaponClass b)))))"
  from assms(2) have sel: "b ! 2 \<le> 1" and tr: "b ! 3 \<le> 1" and a: "isASCII ?code"
    and len: "length ?code = 3" and fld: "drop 5 b = map byte_of_char ?code @ [0]"
    by (simp_all add: canonicalLayerBytes_def Let_def layerSelectable_def layerTransparent_def
          layerWeaponClass_def maxCodeLength_def terminator_def)
  have wc: "WeaponClass (layerOfBytes wcFromString trimSpace b) = wcFromString (trimSpace
              (stripZeros (string_of_bytes (drop layerWeaponClass b))))"
    by (simp add: layerOfBytes_def)
  have "encodedLayer wcString (layerOfBytes wcFromString trimSpace b)
        = [b ! 0, b ! 1, b ! 2, b ! 3, b ! 4] @ map byte_of_char ?code @ [0]"
    using a len byte_le_1 [OF sel] byte_le_1 [OF tr]
    by (subst encodedLayer_ASCII) 
       (simp_all add: wc, auto simp add: layerOfBytes_def layerType_def layerShadow_def
          layerSelectable_def layerTransparent_def layerDrawEffect_def maxCodeLength_def
          terminator_def split: if_splits)
  also have "\<dots> = b"
    using nine_bytes [of b] assms(1) fld by (simp add: numLayerBytes_def)
  finally show ?thesis .
qed

lemma take_drop_append_left:
  "m + n \<le> length xs \<Longrightarrow> take n (drop m (xs @ ys)) = take n (drop m xs)"
  by simp

lemma declared_append:
  assumes "numHeaderBytes \<le> length data"
  shows "declaredLayers (data @ extra) = declaredLayers data"
    and "declaredFrames (data @ extra) = declaredFrames data"
    and "declaredDirections (data @ extra) = declaredDirections data"
    and "framesOffset (data @ extra) = framesOffset data"
    and "priorityOffset (data @ extra) = priorityOffset data"
    and "declaredSize (data @ extra) = declaredSize data"
    and "(data @ extra) ! headerSpeed = data ! headerSpeed"
proof -
  from assms have h: "(data @ extra) ! 0 = data ! 0" "(data @ extra) ! 1 = data ! 1"
    "(data @ extra) ! 2 = data ! 2" "(data @ extra) ! 24 = data ! 24"
    by (auto simp: nth_append cof_consts)
  show "declaredLayers (data @ extra) = declaredLayers data"
    and "declaredFrames (data @ extra) = declaredFrames data"
    and "declaredDirections (data @ extra) = declaredDirections data"
    and "framesOffset (data @ extra) = framesOffset data"
    and "priorityOffset (data @ extra) = priorityOffset data"
    and "declaredSize (data @ extra) = declaredSize data"
    and "(data @ extra) ! headerSpeed = data ! headerSpeed"
    using h
    by (simp_all add: declaredLayers_def declaredFrames_def declaredDirections_def
        framesOffset_def priorityOffset_def declaredSize_def cof_consts del: nth_append)
qed

lemma decodedCOF_append:
  assumes "numHeaderBytes \<le> length data" and "declaredSize data \<le> length data"
  shows "decodedCOF wcFromString trimSpace (data @ extra) = decodedCOF wcFromString trimSpace data"
proof -
  note d = declared_append [OF assms(1), of extra]
  let ?L = "declaredLayers data"
  have sz: "28 + 9 * ?L + declaredFrames data
             + declaredDirections data * (declaredFrames data * ?L) \<le> length data"
    using assms(2) by (simp add: declaredSize_def priorityOffset_def framesOffset_def cof_consts)
  have "map (\<lambda>k. layerOfBytes wcFromString trimSpace (layerBytes (data @ extra) k)) [0..<?L]
        = map (\<lambda>k. layerOfBytes wcFromString trimSpace (layerBytes data k)) [0..<?L]"
  proof (rule map_cong [OF refl])
    fix k assume "k \<in> set [0..<?L]"
    then have "Suc k \<le> ?L" by simp
    then have "9 * Suc k \<le> 9 * ?L" by simp
    with sz have "28 + 9 * k + 9 \<le> length data" by simp
    then have "layerBytes (data @ extra) k = layerBytes data k"
      by (simp add: layerBytes_def cof_consts)
    then show "layerOfBytes wcFromString trimSpace (layerBytes (data @ extra) k)
               = layerOfBytes wcFromString trimSpace (layerBytes data k)" by simp
  qed
  then have lay: "decodedLayers wcFromString trimSpace (data @ extra)
                  = decodedLayers wcFromString trimSpace data"
    by (simp add: decodedLayers_def d)
  show ?thesis
    using sz assms(1)
    unfolding decodedCOF_def lay d
    by (simp add: framesOffset_def priorityOffset_def cof_consts)
qed

lemma Unmarshal_append:
  assumes "Unmarshal wcFromString trimSpace data = (c, None)"
  shows "Unmarshal wcFromString trimSpace (data @ extra) = (c, None)"
proof -
  from assms have ok: "numHeaderBytes \<le> length data" "declaredSize data \<le> length data"
    and c: "c = decodedCOF wcFromString trimSpace data"
    by (simp_all add: Unmarshal_def COF_Unmarshal_None_iff)
  show ?thesis
    using ok
    by (simp add: Unmarshal_def COF_Unmarshal_None_iff c decodedCOF_append
          declared_append [OF ok(1)])
qed

lemma exampleCOF_size: "length exampleCOF = declaredSize exampleCOF"
  by (simp add: exampleCOF_def declaredSize_def priorityOffset_def framesOffset_def
        declaredLayers_def declaredFrames_def declaredDirections_def cof_consts)

lemma exampleCOF_canonical:
  "\<forall>k < declaredLayers exampleCOF.
     canonicalLayerBytes exFromString exString exTrimSpace (layerBytes exampleCOF k)"
proof -
  have n: "declaredLayers exampleCOF = 2"
    by (simp add: exampleCOF_def declaredLayers_def cof_consts)
  have b0: "layerBytes exampleCOF 0 = [1, 1, 1, 0, 0, 104, 116, 104, 0]"
    and b1: "layerBytes exampleCOF (Suc 0) = [1, 0, 0, 1, 3, 98, 111, 119, 0]"
    by (simp_all add: layerBytes_def exampleCOF_def cof_consts)
  have c0: "canonicalLayerBytes exFromString exString exTrimSpace [1, 1, 1, 0, 0, 104, 116, 104, 0]"
    and c1: "canonicalLayerBytes exFromString exString exTrimSpace [1, 0, 0, 1, 3, 98, 111, 119, 0]"
    by code_simp+
  show ?thesis
    unfolding n by (simp add: less_Suc_eq numeral_2_eq_2 b0 b1 c0 c1)
qed


lemma Marshal_Unmarshal_canonical:
  assumes "Unmarshal wcFromString trimSpace data = (c, None)"
    and "length data = declaredSize data"
    and "\<forall>k < declaredLayers data.
           canonicalLayerBytes wcFromString wcString trimSpace (layerBytes data k)"
  shows "Marshal wcString c = Inr data"
proof -
  from assms(1) have ok: "numHeaderBytes \<le> length data" "declaredSize data \<le> length data"
    and c: "c = decodedCOF wcFromString trimSpace data"
    by (simp_all add: Unmarshal_def COF_Unmarshal_None_iff)
  let ?L = "declaredLayers data"
  have fo: "framesOffset data \<le> length data"
    using ok(2) by (simp add: declaredSize_def priorityOffset_def)
  have "map (encodedLayer wcString) (decodedLayers wcFromString trimSpace data)
        = map (layerBytes data) [0..<?L]"
    unfolding decodedLayers_def map_map
  proof (rule map_cong [OF refl])
    fix k assume "k \<in> set [0..<?L]"
    then have k: "k < ?L" by simp
    then have "layersOffset + numLayerBytes * k + numLayerBytes \<le> framesOffset data"
      using mult_le_mono2 [of "Suc k" ?L numLayerBytes] by (simp add: framesOffset_def)
    with fo have "length (layerBytes data k) = numLayerBytes"
      by (simp add: layerBytes_def)
    with assms(3) k
    show "(encodedLayer wcString \<circ> (\<lambda>k. layerOfBytes wcFromString trimSpace (layerBytes data k))) k
          = layerBytes data k"
      by (simp add: encodedLayer_canonical)
  qed
  then have lay: "concat (map (encodedLayer wcString) (decodedLayers wcFromString trimSpace data))
        = take (numLayerBytes * ?L) (drop layersOffset data)"
    using concat_chunks [of numLayerBytes layersOffset data ?L]
    by (simp add: layerBytes_def [abs_def])
  have m: "Marshal wcString c =
          Inr (take layersOffset data @ take (numLayerBytes * ?L) (drop layersOffset data)
               @ take (declaredSize data - framesOffset data) (drop (framesOffset data) data))"
    unfolding Marshal_def c COF_Marshal_decoded [OF ok] lay ..
  have "take layersOffset data @ take (numLayerBytes * ?L) (drop layersOffset data)
               @ take (declaredSize data - framesOffset data) (drop (framesOffset data) data)
        = take (framesOffset data) data
               @ take (declaredSize data - framesOffset data) (drop (framesOffset data) data)"
    using take_add [of layersOffset "numLayerBytes * ?L" data] by (simp add: framesOffset_def)
  also have "\<dots> = take (declaredSize data) data"
    using take_add [of "framesOffset data" "declaredSize data - framesOffset data" data]
    by (simp add: declaredSize_def priorityOffset_def add.assoc)
  also have "\<dots> = data" using assms(2) by simp
  finally show ?thesis unfolding m by simp
qed

section \<open>The animation metadata decoder\<close>

subsection \<open>What a successful load leaves in the store\<close>

lemma loadEvents_from_reader:
  "loadEvents_from eventIdx evs rd = Inr (evs', rd') \<Longrightarrow>
     buf rd' = buf rd \<and> pos rd \<le> pos rd' \<and> (pos rd \<le> length (buf rd) \<longrightarrow> pos rd' \<le> length (buf rd))"
proof (induction eventIdx evs rd rule: loadEvents_from.induct)
  case (1 eventIdx evs rd)
  show ?case
  proof (cases "eventIdx < numEvents")
    case False
    with "1.prems" show ?thesis by (subst (asm) loadEvents_from.simps) simp
  next
    case True
    with "1.prems" obtain b rd1 where
      rdb: "Next_AsByte rd = Inr (b, rd1)" and
      rest: "loadEvents_from (Suc eventIdx)
               (if uint b \<noteq> EventNone then evs(int eventIdx \<mapsto> uint b) else evs) rd1
             = Inr (evs', rd')"
      by (subst (asm) loadEvents_from.simps) (auto simp: Let_def split: sum.splits)
    from rdb have r1: "buf rd1 = buf rd" "pos rd1 = pos rd + 1" "pos rd1 \<le> length (buf rd)"
      by (auto simp: Next_AsByte_def Next_AsBytes_def split: if_splits)
    from "1.IH" [OF True rdb refl refl rest] r1 show ?thesis by auto
  qed
qed

lemma loadRecord_result:
  assumes "loadRecord hashName hashIdx animdata rd = Inr (r, animdata', rd')"
  shows "animdata' = addRecord hashName hashIdx r animdata"
    and "buf rd' = buf rd" and "pos rd \<le> pos rd'" and "pos rd' \<le> length (buf rd)"
proof -
  from assms obtain nameBytes rd1 fr rd2 sp rd3 pad rd4 evs where
    s1: "Next_AsBytes byteCountName rd = Inr (nameBytes, rd1)" and
    s2: "Next_AsUInt32 rd1 = Inr (fr, rd2)" and
    s3: "Next_AsUInt16 rd2 = Inr (sp, rd3)" and
    s4: "Next_AsBytes byteCountSpeedPadding rd3 = Inr (pad, rd4)" and
    s5: "loadEvents_from 0 Map.empty rd4 = Inr (evs, rd')" and
    r: "r = \<lparr>name = stripZeros (string_of_bytes nameBytes), framesPerDirection = fr,
             speed = sp, events = evs\<rparr>" and
    a: "animdata' = addRecord hashName hashIdx r animdata"
    unfolding loadRecord_def
    by (auto simp: Let_def addRecord_def entriesAt_def
             split: sum.splits if_splits option.splits)
  from s1 s2 s3 s4 have "buf rd4 = buf rd" "pos rd \<le> pos rd4" "pos rd4 \<le> length (buf rd)"
    by (auto simp: Next_AsBytes_def Next_AsUInt32_def Next_AsUInt16_def
             split: if_splits sum.splits)
  with loadEvents_from_reader [OF s5] a
  show "animdata' = addRecord hashName hashIdx r animdata"
    and "buf rd' = buf rd" and "pos rd \<le> pos rd'" and "pos rd' \<le> length (buf rd)"
    by auto
qed

lemma loadRecords_from_result:
  "loadRecords_from hashName hashIdx recCount recordIdx recs animdata rd
     = Inr (recs', animdata', rd') \<Longrightarrow>
   \<exists>new. recs' = recs @ new
     \<and> animdata' = fold (addRecord hashName hashIdx) new animdata
     \<and> (recordIdx \<le> recCount \<longrightarrow> length new = unat recCount - unat recordIdx)
     \<and> buf rd' = buf rd \<and> pos rd \<le> pos rd'
     \<and> (pos rd \<le> length (buf rd) \<longrightarrow> pos rd' \<le> length (buf rd))"
proof (induction hashName hashIdx recCount recordIdx recs animdata rd
        rule: loadRecords_from.induct)
  case (1 hashName hashIdx recCount recordIdx recs animdata rd)
  show ?case
  proof (cases "recordIdx < recCount")
    case False
    with "1.prems" have "recs' = recs" "animdata' = animdata" "rd' = rd"
      by (subst (asm) loadRecords_from.simps, simp)+
    moreover from False have "recordIdx \<le> recCount \<longrightarrow> unat recCount - unat recordIdx = 0"
      by (auto simp: word_le_nat_alt word_less_nat_alt)
    ultimately show ?thesis by (intro exI [of _ "[]"]) simp
  next
    case True
    with "1.prems" obtain r ad1 rd1 where
      one: "loadRecord hashName hashIdx animdata rd = Inr (r, ad1, rd1)" and
      rest: "loadRecords_from hashName hashIdx recCount (recordIdx + 1) (recs @ [r]) ad1 rd1
             = Inr (recs', animdata', rd')"
      by (subst (asm) loadRecords_from.simps) (auto split: sum.splits)
    note lr = loadRecord_result [OF one]
    from "1.IH" [OF True one refl refl rest] obtain new where
      new: "recs' = (recs @ [r]) @ new"
        "animdata' = fold (addRecord hashName hashIdx) new ad1"
        "recordIdx + 1 \<le> recCount \<longrightarrow> length new = unat recCount - unat (recordIdx + 1)"
        "buf rd' = buf rd1" "pos rd1 \<le> pos rd'"
        "pos rd1 \<le> length (buf rd1) \<longrightarrow> pos rd' \<le> length (buf rd1)"
      by blast
    from True have le: "recordIdx + 1 \<le> recCount" by (rule inc_le)
    from True have "unat (recordIdx + 1) = Suc (unat recordIdx)"
      by unat_arith
    with new(3) le True have "length (r # new) = unat recCount - unat recordIdx"
      by (simp add: word_less_nat_alt)
    with new lr show ?thesis
      by (intro exI [of _ "r # new"]) simp
  qed
qed

lemma loadBlock_result:
  assumes "loadBlock hashName hashIdx blockIdx (animdata, rd) = Inr (animdata', rd')"
  shows "\<exists>b. recordCount b \<le> maxRecordsPerBlock \<and> length (records b) = unat (recordCount b)
           \<and> animdata' = (fold (addRecord hashName hashIdx) (records b) animdata)
                \<lparr>blocks := blocks animdata @ [b]\<rparr>
           \<and> buf rd' = buf rd \<and> pos rd \<le> pos rd'
           \<and> (pos rd \<le> length (buf rd) \<longrightarrow> pos rd' \<le> length (buf rd))"
proof -
  from assms obtain n rd1 recs ad1 where
    cnt: "Next_AsUInt32 rd = Inr (n, rd1)" and le: "\<not> n > maxRecordsPerBlock" and
    rs: "loadRecords_from hashName hashIdx n 0 [] animdata rd1 = Inr (recs, ad1, rd')" and
    a: "animdata' = ad1\<lparr>blocks := blocks ad1 @ [\<lparr>recordCount = n, records = recs\<rparr>]\<rparr>"
    unfolding loadBlock_def by (auto simp: Let_def split: sum.splits if_splits)
  from cnt have r1: "buf rd1 = buf rd" "pos rd \<le> pos rd1" "pos rd1 \<le> length (buf rd)"
    by (auto simp: Next_AsUInt32_def Next_AsBytes_def split: if_splits sum.splits)
  from loadRecords_from_result [OF rs] obtain new where
    new: "recs = new" "ad1 = fold (addRecord hashName hashIdx) new animdata"
      "length new = unat n" "buf rd' = buf rd1" "pos rd1 \<le> pos rd'"
      "pos rd1 \<le> length (buf rd1) \<longrightarrow> pos rd' \<le> length (buf rd1)"
    by auto
  have bl: "blocks (fold (addRecord hashName hashIdx) rs ad) = blocks ad" for rs ad
    by (induction rs arbitrary: ad) (simp_all add: addRecord_def)
  show ?thesis
    using le new r1 a
    by (intro exI [of _ "\<lparr>recordCount = n, records = recs\<rparr>"]) (simp add: bl)
qed

lemma fold_addRecord_blocks:
  "blocks (fold (addRecord hashName hashIdx) rs animdata) = blocks animdata"
  by (induction rs arbitrary: animdata) (simp_all add: addRecord_def)

lemma fold_addRecord_entriesAt:
  "entriesAt (fold (addRecord hashName hashIdx) rs animdata) nm
     = entriesAt animdata nm @ filter (\<lambda>r. name r = nm) rs"
proof (induction rs arbitrary: animdata)
  case Nil
  show ?case by simp
next
  case (Cons r rs)
  have "entriesAt (addRecord hashName hashIdx r animdata) nm
        = entriesAt animdata nm @ (if name r = nm then [r] else [])"
    by (simp add: addRecord_def entriesAt_def)
  with Cons.IH [of "addRecord hashName hashIdx r animdata"] show ?case by simp
qed

lemma fold_addRecord_hashTable:
  "hashTable (fold (addRecord hashName hashIdx) rs animdata)
     = (if rs = [] then hashTable animdata
        else (hashTable animdata)(hashIdx \<mapsto> hashName (name (last rs))))"
proof (induction rs arbitrary: animdata)
  case Nil
  show ?case by simp
next
  case (Cons r rs)
  have "hashTable (addRecord hashName hashIdx r animdata)
        = (hashTable animdata)(hashIdx \<mapsto> hashName (name r))"
    by (simp add: addRecord_def)
  then show ?case
    by (auto simp add: Cons.IH [of "addRecord hashName hashIdx r animdata"])
qed

lemma fold_addRecord_append:
  "fold (addRecord hashName hashIdx) (xs @ ys) animdata
     = fold (addRecord hashName hashIdx) ys (fold (addRecord hashName hashIdx) xs animdata)"
  by simp

lemma entriesAt_blocks_update [simp]:
  "entriesAt (animdata\<lparr>blocks := bs\<rparr>) nm = entriesAt animdata nm"
  by (simp add: entriesAt_def)

lemma loadBlocks_result:
  "loadBlocks hashName hashIdx idxs (animdata, rd) = Inr (animdata', rd') \<Longrightarrow>
   \<exists>bs. length bs = length idxs
     \<and> (\<forall>b \<in> set bs. recordCount b \<le> maxRecordsPerBlock
                       \<and> length (records b) = unat (recordCount b))
     \<and> blocks animdata' = blocks animdata @ bs
     \<and> hashTable animdata' = hashTable (fold (addRecord hashName hashIdx)
                                          (concat (map records bs)) animdata)
     \<and> (\<forall>nm. entriesAt animdata' nm
               = entriesAt animdata nm @ filter (\<lambda>r. name r = nm) (concat (map records bs)))
     \<and> buf rd' = buf rd \<and> pos rd \<le> pos rd'
     \<and> (pos rd \<le> length (buf rd) \<longrightarrow> pos rd' \<le> length (buf rd))"
proof (induction idxs arbitrary: animdata rd)
  case Nil
  then show ?case by (intro exI [of _ "[]"]) simp
next
  case (Cons blockIdx idxs)
  from Cons.prems obtain ad1 rd1 where
    one: "loadBlock hashName hashIdx blockIdx (animdata, rd) = Inr (ad1, rd1)" and
    rest: "loadBlocks hashName hashIdx idxs (ad1, rd1) = Inr (animdata', rd')"
    by (auto split: sum.splits)
  from loadBlock_result [OF one] obtain b where
    b: "recordCount b \<le> maxRecordsPerBlock" "length (records b) = unat (recordCount b)"
      "ad1 = (fold (addRecord hashName hashIdx) (records b) animdata)
                \<lparr>blocks := blocks animdata @ [b]\<rparr>"
      "buf rd1 = buf rd" "pos rd \<le> pos rd1"
      "pos rd \<le> length (buf rd) \<longrightarrow> pos rd1 \<le> length (buf rd)"
    by blast
  from Cons.IH [OF rest] obtain bs where
    bs: "length bs = length idxs"
      "\<forall>b \<in> set bs. recordCount b \<le> maxRecordsPerBlock
                       \<and> length (records b) = unat (recordCount b)"
      "blocks animdata' = blocks ad1 @ bs"
      "hashTable animdata' = hashTable (fold (addRecord hashName hashIdx)
                                          (concat (map records bs)) ad1)"
      "\<forall>nm. entriesAt animdata' nm
               = entriesAt ad1 nm @ filter (\<lambda>r. name r = nm) (concat (map records bs))"
      "buf rd' = buf rd1" "pos rd1 \<le> pos rd'"
      "pos rd1 \<le> length (buf rd1) \<longrightarrow> pos rd' \<le> length (buf rd1)"
    by blast
  have ht: "hashTable (fold (addRecord hashName hashIdx) rs (ad\<lparr>blocks := x\<rparr>))
            = hashTable (fold (addRecord hashName hashIdx) rs ad)" for rs ad x
    by (simp add: fold_addRecord_hashTable)
  show ?case
    using b bs
    by (intro exI [of _ "b # bs"])
       (simp add: fold_addRecord_blocks fold_addRecord_entriesAt ht)
qed

lemma Load_Some:
  assumes "Load hashName data = (Some animdata, err)"
  shows "err = None"
    and "length (blocks animdata) = numBlocks"
    and "\<forall>b \<in> set (blocks animdata). recordCount b \<le> maxRecordsPerBlock
                       \<and> length (records b) = unat (recordCount b)"
    and "hashTable animdata = (if allRecords animdata = [] then Map.empty
                               else [0 \<mapsto> hashName (name (last (allRecords animdata)))])"
    and "entriesAt animdata nm = filter (\<lambda>r. name r = nm) (allRecords animdata)"
proof -
  from assms obtain rd where
    run: "loadBlocks hashName 0 [0..<numBlocks] (emptyAnimationData, FromBytes data)
            = Inr (animdata, rd)"
    and e: "err = None"
    unfolding Load_def emptyAnimationData_def
    by (auto simp: Let_def split: sum.splits if_splits)
  from loadBlocks_result [OF run] obtain bs where
    bs: "length bs = numBlocks"
      "\<forall>b \<in> set bs. recordCount b \<le> maxRecordsPerBlock
                       \<and> length (records b) = unat (recordCount b)"
      "blocks animdata = blocks (emptyAnimationData :: 'a AnimationData) @ bs"
      "hashTable animdata = hashTable (fold (addRecord hashName 0)
                                          (concat (map records bs)) emptyAnimationData)"
      "\<forall>nm. entriesAt animdata nm
               = entriesAt (emptyAnimationData :: 'a AnimationData) nm
                 @ filter (\<lambda>r. name r = nm) (concat (map records bs))"
    by (simp only: length_upt diff_zero) blast
  have e0: "blocks (emptyAnimationData :: 'a AnimationData) = []"
    "entriesAt (emptyAnimationData :: 'a AnimationData) nm = []"
    "hashTable (emptyAnimationData :: 'a AnimationData) = Map.empty"
    by (simp_all add: emptyAnimationData_def entriesAt_def)
  show "err = None" by (rule e)
  show "length (blocks animdata) = numBlocks" using bs by (simp add: e0)
  show "\<forall>b \<in> set (blocks animdata). recordCount b \<le> maxRecordsPerBlock
                       \<and> length (records b) = unat (recordCount b)"
    using bs by (simp add: e0)
  show "hashTable animdata = (if allRecords animdata = [] then Map.empty
                               else [0 \<mapsto> hashName (name (last (allRecords animdata)))])"
    using bs(3,4) by (simp add: fold_addRecord_hashTable allRecords_def e0)
  show "entriesAt animdata nm = filter (\<lambda>r. name r = nm) (allRecords animdata)"
    using bs(3,5) by (simp add: allRecords_def e0)
qed

subsection \<open>Decoding a well-formed file\<close>

lemma Next_AsBytes_prefix:
  assumes "pos r \<le> length (buf r)" and "drop (pos r) (buf r) = x @ rest"
  shows "Next_AsBytes (length x) r = Inr (x, r\<lparr>pos := pos r + length x\<rparr>)"
    and "drop (pos r + length x) (buf r) = rest"
    and "pos r + length x \<le> length (buf r)"
proof -
  from assms(2) have "length (drop (pos r) (buf r)) = length x + length rest" by simp
  with assms(1) show le: "pos r + length x \<le> length (buf r)" by simp
  from assms(2) have "take (length x) (drop (pos r) (buf r)) = x" by simp
  with le show "Next_AsBytes (length x) r = Inr (x, r\<lparr>pos := pos r + length x\<rparr>)"
    by (simp add: Next_AsBytes_def)
  from assms(2) have "drop (length x) (drop (pos r) (buf r)) = rest" by simp
  then show "drop (pos r + length x) (buf r) = rest" by (simp add: add.commute)
qed

lemma loadEvents_from_ok:
  assumes "pos r \<le> length (buf r)" and "drop (pos r) (buf r) = ev @ rest"
    and "k + length ev = numEvents"
  shows "loadEvents_from k evs r =
           Inr (\<lambda>i. if int k \<le> i \<and> nat i < numEvents \<and> uint (ev ! (nat i - k)) \<noteq> EventNone
                     then Some (uint (ev ! (nat i - k))) else evs i,
                r\<lparr>pos := pos r + length ev\<rparr>)"
  using assms
proof (induction ev arbitrary: k evs r)
  case Nil
  then have "\<not> k < numEvents" by simp
  then have "\<not> (int k \<le> i \<and> nat i < numEvents)" for i by linarith
  then have "(\<lambda>i. if int k \<le> i \<and> nat i < numEvents \<and> uint (([] :: byte list) ! (nat i - k)) \<noteq> EventNone
                     then Some (uint (([] :: byte list) ! (nat i - k))) else evs i) = evs"
    by (intro ext) auto
  with \<open>\<not> k < numEvents\<close> show ?case by (subst loadEvents_from.simps) simp
next
  case (Cons b ev)
  let ?r1 = "r\<lparr>pos := pos r + 1\<rparr>"
  let ?evs1 = "if uint b \<noteq> EventNone then evs(int k \<mapsto> uint b) else evs"
  from Cons.prems have k: "k < numEvents" by simp
  from Next_AsBytes_prefix [of r "[b]" "ev @ rest"] Cons.prems
  have rd: "Next_AsByte r = Inr (b, ?r1)" and dr: "drop (pos ?r1) (buf ?r1) = ev @ rest"
    and le: "pos ?r1 \<le> length (buf ?r1)"
    by (simp_all add: Next_AsByte_def)
  have IH: "loadEvents_from (Suc k) ?evs1 ?r1 =
           Inr (\<lambda>i. if int (Suc k) \<le> i \<and> nat i < numEvents \<and> uint (ev ! (nat i - Suc k)) \<noteq> EventNone
                     then Some (uint (ev ! (nat i - Suc k))) else ?evs1 i,
                ?r1\<lparr>pos := pos ?r1 + length ev\<rparr>)"
    using Cons.prems(3) by (intro Cons.IH [OF le dr]) simp
  have maps: "(\<lambda>i. if int (Suc k) \<le> i \<and> nat i < numEvents \<and> uint (ev ! (nat i - Suc k)) \<noteq> EventNone
                     then Some (uint (ev ! (nat i - Suc k))) else ?evs1 i)
            = (\<lambda>i. if int k \<le> i \<and> nat i < numEvents \<and> uint ((b # ev) ! (nat i - k)) \<noteq> EventNone
                     then Some (uint ((b # ev) ! (nat i - k))) else evs i)"
  proof (rule ext)
    fix i :: int
    show "(if int (Suc k) \<le> i \<and> nat i < numEvents \<and> uint (ev ! (nat i - Suc k)) \<noteq> EventNone
                     then Some (uint (ev ! (nat i - Suc k))) else ?evs1 i)
            = (if int k \<le> i \<and> nat i < numEvents \<and> uint ((b # ev) ! (nat i - k)) \<noteq> EventNone
                     then Some (uint ((b # ev) ! (nat i - k))) else evs i)"
    proof (cases "i = int k")
      case True
      with k show ?thesis by simp
    next
      case False
      show ?thesis
      proof (cases "int k \<le> i")
        case True
        with False have "int (Suc k) \<le> i" and "nat i - k = Suc (nat i - Suc k)" by linarith+
        with False show ?thesis by simp
      next
        case nle: False
        then have "\<not> int (Suc k) \<le> i" by simp
        with nle False show ?thesis by simp
      qed
    qed
  qed
  have step: "loadEvents_from k evs r = loadEvents_from (Suc k) ?evs1 ?r1"
    using k by (subst loadEvents_from.simps) (simp add: rd Let_def)
  show ?case unfolding step IH maps by simp
qed

lemmas animdata_consts = byteCountName_def byteCountSpeedPadding_def numEvents_def recordSize_def

lemma eventsOfBytes_alt:
  "length ev = numEvents \<Longrightarrow>
   (\<lambda>i. if int 0 \<le> i \<and> nat i < numEvents \<and> uint (ev ! (nat i - 0)) \<noteq> EventNone
        then Some (uint (ev ! (nat i - 0))) else Map.empty i) = eventsOfBytes ev"
  by (auto simp: eventsOfBytes_def fun_eq_iff)

lemma loadRecord_ok:
  assumes "pos r \<le> length (buf r)" and "drop (pos r) (buf r) = rb @ rest"
    and "wellFormedRecord rb"
  shows "loadRecord hashName hashIdx animdata r =
           Inr (recordOfBytes rb, addRecord hashName hashIdx (recordOfBytes rb) animdata,
                r\<lparr>pos := pos r + recordSize\<rparr>)"
proof -
  let ?nm = "take 8 rb" and ?fr = "take 4 (drop 8 rb)" and ?sp = "take 2 (drop 12 rb)"
  let ?pd = "take 2 (drop 14 rb)" and ?ev = "drop 16 rb"
  from assms(3) have len: "length rb = 160" and tz: "rb ! 7 = 0"
    by (simp_all add: wellFormedRecord_def animdata_consts)
  have "drop 16 rb = drop 2 (drop 14 rb)" "drop 14 rb = drop 2 (drop 12 rb)"
    "drop 12 rb = drop 4 (drop 8 rb)"
    by simp_all
  then have "?pd @ ?ev = drop 14 rb" "?sp @ drop 14 rb = drop 12 rb" "?fr @ drop 12 rb = drop 8 rb"
    by (simp_all only: append_take_drop_id)
  then have split: "rb = ?nm @ ?fr @ ?sp @ ?pd @ ?ev"
    by (simp only: append_take_drop_id)
  let ?r1 = "r\<lparr>pos := pos r + 8\<rparr>" and ?r2 = "r\<lparr>pos := pos r + 12\<rparr>"
  let ?r3 = "r\<lparr>pos := pos r + 14\<rparr>" and ?r4 = "r\<lparr>pos := pos r + 16\<rparr>"
  have l: "length ?nm = 8" "length ?fr = 4" "length ?sp = 2" "length ?pd = 2" "length ?ev = 144"
    using len by simp_all
  have d0: "drop (pos r) (buf r) = ?nm @ (?fr @ ?sp @ ?pd @ ?ev @ rest)"
    using assms(2) split by (metis append_assoc)
  note s1 = Next_AsBytes_prefix [OF assms(1) d0, unfolded l]
  have d1: "drop (pos ?r1) (buf ?r1) = ?fr @ (?sp @ ?pd @ ?ev @ rest)" and p1: "pos ?r1 \<le> length (buf ?r1)"
    using s1 by (simp_all add: add.commute)
  note s2 = Next_AsBytes_prefix [OF p1 d1, unfolded l]
  have d2: "drop (pos ?r2) (buf ?r2) = ?sp @ (?pd @ ?ev @ rest)" and p2: "pos ?r2 \<le> length (buf ?r2)"
    using s2 by (simp_all add: add.commute)
  note s3 = Next_AsBytes_prefix [OF p2 d2, unfolded l]
  have d3: "drop (pos ?r3) (buf ?r3) = ?pd @ (?ev @ rest)" and p3: "pos ?r3 \<le> length (buf ?r3)"
    using s3 by (simp_all add: add.commute)
  note s4 = Next_AsBytes_prefix [OF p3 d3, unfolded l]
  have d4: "drop (pos ?r4) (buf ?r4) = ?ev @ rest" and p4: "pos ?r4 \<le> length (buf ?r4)"
    using s4 by (simp_all add: add.commute)
  have rd1: "Next_AsBytes 8 r = Inr (?nm, ?r1)"
    and rd2: "Next_AsBytes 4 ?r1 = Inr (?fr, ?r2)"
    and rd3: "Next_AsBytes 2 ?r2 = Inr (?sp, ?r3)"
    and rd4: "Next_AsBytes 2 ?r3 = Inr (?pd, ?r4)"
    using s1(1) s2(1) s3(1) s4(1) by (simp_all add: add.commute)
  have ev: "loadEvents_from 0 Map.empty ?r4 = Inr (eventsOfBytes ?ev, r\<lparr>pos := pos r + 160\<rparr>)"
    using loadEvents_from_ok [OF p4 d4, of 0 Map.empty] l(5) eventsOfBytes_alt [of ?ev]
    by (simp add: numEvents_def add.assoc)
  have nm7: "?nm ! 7 = 0" using tz by simp
  show ?thesis
    unfolding loadRecord_def
    by (simp add: animdata_consts Next_AsUInt32_def Next_AsUInt16_def rd1 rd2 rd3 rd4 nm7 ev
          Let_def recordOfBytes_def addRecord_def entriesAt_def split: option.splits)
qed

lemma loadRecords_from_ok:
  assumes "pos r \<le> length (buf r)" and "drop (pos r) (buf r) = concat rbs @ rest"
    and "\<forall>rb \<in> set rbs. wellFormedRecord rb"
    and "unat recordIdx + length rbs = unat recCount"
  shows "loadRecords_from hashName hashIdx recCount recordIdx recs animdata r =
           Inr (recs @ map recordOfBytes rbs,
                fold (addRecord hashName hashIdx) (map recordOfBytes rbs) animdata,
                r\<lparr>pos := pos r + recordSize * length rbs\<rparr>)"
  using assms
proof (induction rbs arbitrary: recordIdx recs animdata r)
  case Nil
  then have "\<not> recordIdx < recCount" by (simp add: word_less_nat_alt)
  then show ?case by (subst loadRecords_from.simps) simp
next
  case (Cons rb rbs)
  let ?r1 = "r\<lparr>pos := pos r + recordSize\<rparr>"
  let ?rec = "recordOfBytes rb"
  from Cons.prems have lt: "recordIdx < recCount" and wf: "wellFormedRecord rb"
    by (simp_all add: word_less_nat_alt)
  then have len: "length rb = recordSize" by (simp add: wellFormedRecord_def)
  from Cons.prems(2) have d: "drop (pos r) (buf r) = rb @ (concat rbs @ rest)" by simp
  note one = loadRecord_ok [OF Cons.prems(1) d wf, of hashName hashIdx animdata]
  note nx = Next_AsBytes_prefix(2,3) [OF Cons.prems(1) d, unfolded len]
  from lt have "unat (recordIdx + 1) = Suc (unat recordIdx)" by unat_arith
  with Cons.prems(4) have idx: "unat (recordIdx + 1) + length rbs = unat recCount" by simp
  have IH: "loadRecords_from hashName hashIdx recCount (recordIdx + 1) (recs @ [?rec])
              (addRecord hashName hashIdx ?rec animdata) ?r1 =
           Inr ((recs @ [?rec]) @ map recordOfBytes rbs,
                fold (addRecord hashName hashIdx) (map recordOfBytes rbs)
                  (addRecord hashName hashIdx ?rec animdata),
                ?r1\<lparr>pos := pos ?r1 + recordSize * length rbs\<rparr>)"
    using nx Cons.prems(3) idx by (intro Cons.IH) simp_all
  have step: "loadRecords_from hashName hashIdx recCount recordIdx recs animdata r =
              loadRecords_from hashName hashIdx recCount (recordIdx + 1) (recs @ [?rec])
                (addRecord hashName hashIdx ?rec animdata) ?r1"
    using lt by (subst loadRecords_from.simps) (simp add: one)
  show ?case unfolding step IH by (simp add: add.assoc)
qed

lemma loadBlock_ok:
  assumes "pos r \<le> length (buf r)" and "drop (pos r) (buf r) = bucketBytes bk @ rest"
    and "wellFormedBucket bk"
  shows "loadBlock hashName hashIdx blockIdx (animdata, r) =
           Inr ((fold (addRecord hashName hashIdx) (records (blockOfBucket bk)) animdata)
                  \<lparr>blocks := blocks animdata @ [blockOfBucket bk]\<rparr>,
                r\<lparr>pos := pos r + length (bucketBytes bk)\<rparr>)"
proof -
  obtain cnt rbs where bk: "bk = (cnt, rbs)" by (cases bk)
  from assms(3) have len: "length cnt = 4" and n: "AsUInt32 cnt = of_nat (length rbs)"
    and le: "length rbs \<le> 67" and wf: "\<forall>rb \<in> set rbs. wellFormedRecord rb"
    by (simp_all add: wellFormedBucket_def bk maxRecordsPerBlock_def)
  let ?r1 = "r\<lparr>pos := pos r + 4\<rparr>"
  from assms(2) have d: "drop (pos r) (buf r) = cnt @ (concat rbs @ rest)"
    by (simp add: bucketBytes_def bk)
  note rd = Next_AsBytes_prefix [OF assms(1) d, unfolded len]
  from le have un: "unat (of_nat (length rbs) :: 32 word) = length rbs"
    by (simp add: unat_of_nat)
  with le have ok: "\<not> AsUInt32 cnt > maxRecordsPerBlock"
    by (simp add: n maxRecordsPerBlock_def word_less_nat_alt)
  have p1: "pos ?r1 \<le> length (buf ?r1)" and d1: "drop (pos ?r1) (buf ?r1) = concat rbs @ rest"
    using rd by simp_all
  have rs: "loadRecords_from hashName hashIdx (AsUInt32 cnt) 0 [] animdata ?r1 =
           Inr ([] @ map recordOfBytes rbs,
                fold (addRecord hashName hashIdx) (map recordOfBytes rbs) animdata,
                ?r1\<lparr>pos := pos ?r1 + recordSize * length rbs\<rparr>)"
    using wf un by (intro loadRecords_from_ok [OF p1 d1]) (simp_all add: n)
  have lc: "length (concat rbs) = recordSize * length rbs"
    using wf by (induction rbs) (simp_all add: wellFormedRecord_def)
  show ?thesis
    unfolding loadBlock_def
    using ok rd(1)
    by (simp add: Next_AsUInt32_def rs bk blockOfBucket_def bucketBytes_def len lc
          fold_addRecord_blocks add.assoc)
qed

lemma loadBlocks_ok:
  assumes "pos r \<le> length (buf r)"
    and "drop (pos r) (buf r) = concat (map bucketBytes bks) @ rest"
    and "\<forall>bk \<in> set bks. wellFormedBucket bk"
    and "length idxs = length bks"
  shows "loadBlocks hashName hashIdx idxs (animdata, r) =
           Inr ((fold (addRecord hashName hashIdx)
                   (concat (map (records \<circ> blockOfBucket) bks)) animdata)
                  \<lparr>blocks := blocks animdata @ map blockOfBucket bks\<rparr>,
                r\<lparr>pos := pos r + length (concat (map bucketBytes bks))\<rparr>)"
  using assms
proof (induction bks arbitrary: idxs animdata r)
  case Nil
  then show ?case by simp
next
  case (Cons bk bks)
  from Cons.prems(4) obtain blockIdx idxs' where idxs: "idxs = blockIdx # idxs'"
    and li: "length idxs' = length bks"
    by (cases idxs) auto
  let ?ad1 = "(fold (addRecord hashName hashIdx) (records (blockOfBucket bk)) animdata)
                  \<lparr>blocks := blocks animdata @ [blockOfBucket bk]\<rparr>"
  let ?r1 = "r\<lparr>pos := pos r + length (bucketBytes bk)\<rparr>"
  from Cons.prems(2) have d: "drop (pos r) (buf r)
      = bucketBytes bk @ (concat (map bucketBytes bks) @ rest)" by simp
  from Cons.prems(3) have wf: "wellFormedBucket bk" "\<forall>bk \<in> set bks. wellFormedBucket bk"
    by simp_all
  note one = loadBlock_ok [OF Cons.prems(1) d wf(1), of hashName hashIdx blockIdx animdata]
  note nx = Next_AsBytes_prefix(2,3) [OF Cons.prems(1) d]
  have IH: "loadBlocks hashName hashIdx idxs' (?ad1, ?r1) =
           Inr ((fold (addRecord hashName hashIdx)
                   (concat (map (records \<circ> blockOfBucket) bks)) ?ad1)
                  \<lparr>blocks := blocks ?ad1 @ map blockOfBucket bks\<rparr>,
                ?r1\<lparr>pos := pos ?r1 + length (concat (map bucketBytes bks))\<rparr>)"
    using nx wf(2) li by (intro Cons.IH) simp_all
  have fb: "fold (addRecord hashName hashIdx) rs (ad\<lparr>blocks := x\<rparr>)
            = (fold (addRecord hashName hashIdx) rs ad)\<lparr>blocks := x\<rparr>" for rs ad x
  proof (induction rs arbitrary: ad)
    case Nil
    show ?case by simp
  next
    case (Cons a rs)
    have "addRecord hashName hashIdx a (ad\<lparr>blocks := x\<rparr>)
          = (addRecord hashName hashIdx a ad)\<lparr>blocks := x\<rparr>"
      by (simp add: addRecord_def entriesAt_def)
    with Cons.IH show ?case by simp
  qed
  show ?case
    unfolding idxs loadBlocks.simps one sum.case IH
    by (simp add: fb add.assoc comp_def)
qed

lemma Load_eq:
  "Load hashName data =
     (case loadBlocks hashName 0 [0..<numBlocks] (emptyAnimationData, FromBytes data) of
        Inl err \<Rightarrow> (None, Some err)
      | Inr (animdata, reader) \<Rightarrow>
          if Position reader \<noteq> length data then (None, Some UnableToParse)
          else (Some animdata, None))"
  by (simp add: Load_def emptyAnimationData_def Let_def)

lemma loadBlocks_append:
  "loadBlocks hashName hashIdx (xs @ ys) st =
     (case loadBlocks hashName hashIdx xs st of
        Inl err \<Rightarrow> Inl err
      | Inr st' \<Rightarrow> loadBlocks hashName hashIdx ys st')"
  by (induction xs arbitrary: st) (simp_all split: sum.splits)

lemma Load_wellFormed:
  assumes "length bks = numBlocks" and "\<forall>bk \<in> set bks. wellFormedBucket bk"
  shows "Load hashName (concat (map bucketBytes bks) @ extra) =
           (if extra = [] then (Some (decodedStore hashName bks), None)
            else (None, Some UnableToParse))"
proof -
  let ?data = "concat (map bucketBytes bks) @ extra"
  have "loadBlocks hashName 0 [0..<numBlocks] (emptyAnimationData, FromBytes ?data) =
          Inr ((fold (addRecord hashName 0)
                   (concat (map (records \<circ> blockOfBucket) bks)) emptyAnimationData)
                  \<lparr>blocks := blocks (emptyAnimationData :: 'a AnimationData) @ map blockOfBucket bks\<rparr>,
               (FromBytes ?data)\<lparr>pos := pos (FromBytes ?data)
                                       + length (concat (map bucketBytes bks))\<rparr>)"
    using assms by (intro loadBlocks_ok) (simp_all add: FromBytes_def)
  then show ?thesis
    by (simp add: Load_eq decodedStore_def Position_def FromBytes_def emptyAnimationData_def)
qed


subsection \<open>The errors of a record\<close>

lemma loadEvents_from_error:
  "loadEvents_from eventIdx evs rd = Inl err \<Longrightarrow> err = OutOfData"
proof (induction eventIdx evs rd rule: loadEvents_from.induct)
  case (1 eventIdx evs rd)
  show ?case
  proof (cases "eventIdx < numEvents")
    case False
    with "1.prems" show ?thesis by (subst (asm) loadEvents_from.simps) simp
  next
    case True
    show ?thesis
    proof (cases "Next_AsByte rd")
      case (Inl e)
      with True "1.prems" have "err = e" by (subst (asm) loadEvents_from.simps) simp
      with Inl show ?thesis
        by (auto simp: Next_AsByte_def Next_AsBytes_def split: if_splits sum.splits)
    next
      case (Inr p)
      obtain b rd1 where p: "p = (b, rd1)" by (cases p)
      from True "1.prems" Inr p
      have "loadEvents_from (Suc eventIdx)
               (if uint b \<noteq> EventNone then evs(int eventIdx \<mapsto> uint b) else evs) rd1
             = Inl err"
        by (subst (asm) loadEvents_from.simps) (simp add: Let_def)
      from "1.IH" [OF True Inr [unfolded p] refl refl this] show ?thesis .
    qed
  qed
qed

lemma loadRecord_error:
  "loadRecord hashName hashIdx animdata rd = Inl err \<Longrightarrow>
     err = OutOfData \<or> err = MissingNullTerminator"
  unfolding loadRecord_def
  by (auto simp: Let_def Next_AsBytes_def Next_AsUInt32_def Next_AsUInt16_def
           split: sum.splits if_splits prod.splits dest: loadEvents_from_error)

lemma loadRecords_from_error:
  "loadRecords_from hashName hashIdx recCount recordIdx recs animdata rd = Inl err \<Longrightarrow>
     err = OutOfData \<or> err = MissingNullTerminator"
proof (induction hashName hashIdx recCount recordIdx recs animdata rd
        rule: loadRecords_from.induct)
  case (1 hashName hashIdx recCount recordIdx recs animdata rd)
  show ?case
  proof (cases "recordIdx < recCount")
    case False
    with "1.prems" show ?thesis by (subst (asm) loadRecords_from.simps) simp
  next
    case True
    show ?thesis
    proof (cases "loadRecord hashName hashIdx animdata rd")
      case (Inl e)
      with True "1.prems" have "err = e" by (subst (asm) loadRecords_from.simps) simp
      with loadRecord_error [OF Inl] show ?thesis by simp
    next
      case (Inr p)
      obtain r ad1 rd1 where p: "p = (r, ad1, rd1)" by (cases p)
      from True "1.prems" Inr p
      have "loadRecords_from hashName hashIdx recCount (recordIdx + 1) (recs @ [r]) ad1 rd1
             = Inl err"
        by (subst (asm) loadRecords_from.simps) simp
      from "1.IH" [OF True Inr [unfolded p] refl refl this] show ?thesis .
    qed
  qed
qed

subsection \<open>The example files\<close>

lemma exampleRecord_wf:
  assumes "length nm \<le> 7"
  shows "wellFormedRecord (exampleRecord nm fr)"
proof -
  from assms have "7 - length nm < 8 - length nm" and "\<not> 7 < length nm" by arith+
  then have "exampleRecord nm fr ! 7 = 0"
    by (simp add: exampleRecord_def nth_append)
  with assms show ?thesis
    by (simp add: wellFormedRecord_def animdata_consts) (simp add: exampleRecord_def)
qed

lemma AsUInt32_small: "AsUInt32 [b, 0, 0, 0] = ucast b"
  by (simp add: AsUInt32_def)

lemma exampleBuckets_wf:
  "length exampleBuckets = numBlocks" "\<forall>bk \<in> set exampleBuckets. wellFormedBucket bk"
  by (auto simp: exampleBuckets_def numBlocks_def wellFormedBucket_def AsUInt32_small
        maxRecordsPerBlock_def exampleRecord_wf)

lemma bucketOf67_wf: "wellFormedBucket bucketOf67"
  by (simp add: bucketOf67_def wellFormedBucket_def AsUInt32_small maxRecordsPerBlock_def
        exampleRecord_wf)

lemma exampleRecord_name:
  "name (recordOfBytes (exampleRecord [65, 49] fr)) = ''A1''"
  "name (recordOfBytes (exampleRecord [66] fr)) = ''B''"
  "name (recordOfBytes (exampleRecord [67] fr)) = ''C''"
  by (simp_all add: recordOfBytes_def exampleRecord_def byteCountName_def, code_simp+)

lemma concat_replicate_zeros:
  "concat (replicate n [0, 0, 0, 0 :: byte]) = replicate (4 * n) 0"
proof (induction n)
  case 0
  show ?case by simp
next
  case (Suc n)
  have "replicate (4 * Suc n) (0 :: byte) = replicate 4 0 @ replicate (4 * n) 0"
    by (simp flip: replicate_add)
  also have "replicate 4 (0 :: byte) = [0, 0, 0, 0]" by (simp add: numeral_eq_Suc)
  finally show ?case using Suc.IH by simp
qed

lemma file67_buckets:
  "file67 = concat (map bucketBytes (bucketOf67 # replicate 255 ([0, 0, 0, 0], [])))"
  by (simp add: file67_def bucketOf67_def bucketBytes_def concat_replicate_zeros)

lemma file67_loads:
  "Load hashName file67
     = (Some (decodedStore hashName (bucketOf67 # replicate 255 ([0, 0, 0, 0], []))), None)"
proof -
  have "wellFormedBucket ([0, 0, 0, 0], [])"
    by (simp add: wellFormedBucket_def AsUInt32_small)
  then have "\<forall>bk \<in> set (bucketOf67 # replicate 255 ([0, 0, 0, 0], [])). wellFormedBucket bk"
    using bucketOf67_wf by simp
  from Load_wellFormed [OF _ this, of hashName "[]"] show ?thesis
    by (simp add: file67_buckets numBlocks_def)
qed

lemma allRecords_decodedStore:
  "allRecords (decodedStore hashName bks) = concat (map (records \<circ> blockOfBucket) bks)"
  by (simp add: allRecords_def decodedStore_def)

lemma hashTable_decodedStore:
  "hashTable (decodedStore hashName bks) =
     (if concat (map (records \<circ> blockOfBucket) bks) = [] then Map.empty
      else [0 \<mapsto> hashName (name (last (concat (map (records \<circ> blockOfBucket) bks))))])"
  by (simp add: decodedStore_def fold_addRecord_hashTable emptyAnimationData_def)

lemma exampleAnimData_loads:
  "Load hashName exampleAnimData = (Some (decodedStore hashName exampleBuckets), None)"
  using Load_wellFormed [OF exampleBuckets_wf, of hashName "[]"]
  by (simp add: exampleAnimData_def)

lemma exampleAnimData_records:
  "allRecords (decodedStore hashName exampleBuckets) =
     [recordOfBytes (exampleRecord [65, 49] 8), recordOfBytes (exampleRecord [66] 3),
      recordOfBytes (exampleRecord [65, 49] 9), recordOfBytes (exampleRecord [67] 4)]"
  by (simp add: allRecords_decodedStore exampleBuckets_def blockOfBucket_def)

lemma fileTooMany_prefix:
  "loadBlocks hashName 0 [0..<1] (emptyAnimationData, FromBytes fileTooMany)
     = Inr (emptyAnimationData\<lparr>blocks := [\<lparr>recordCount = 0, records = []\<rparr>]\<rparr>,
            \<lparr>buf = fileTooMany, pos = 4\<rparr>)"
proof -
  have wf: "\<forall>bk \<in> set [([0, 0, 0, 0], [])]. wellFormedBucket bk"
    by (simp add: wellFormedBucket_def AsUInt32_small)
  have "loadBlocks hashName 0 [0] (emptyAnimationData, FromBytes fileTooMany) =
           Inr ((fold (addRecord hashName 0)
                   (concat (map (records \<circ> blockOfBucket) [([0, 0, 0, 0], [])])) emptyAnimationData)
                  \<lparr>blocks := blocks (emptyAnimationData :: 'a AnimationData)
                              @ map blockOfBucket [([0, 0, 0, 0], [])]\<rparr>,
                (FromBytes fileTooMany)\<lparr>pos := pos (FromBytes fileTooMany)
                    + length (concat (map bucketBytes [([0, 0, 0, 0], [])]))\<rparr>)"
    by (rule loadBlocks_ok [OF _ _ wf, where rest = "[68, 0, 0, 0]"])
       (simp_all add: FromBytes_def fileTooMany_def bucketBytes_def)
  then show ?thesis
    by (simp add: blockOfBucket_def bucketBytes_def AsUInt32_small FromBytes_def
          emptyAnimationData_def)
qed

lemma fileTooMany_count:
  "Next_AsUInt32 \<lparr>buf = fileTooMany, pos = 4\<rparr> = Inr (68, \<lparr>buf = fileTooMany, pos = 8\<rparr>)"
  by (simp add: Next_AsUInt32_def Next_AsBytes_def fileTooMany_def AsUInt32_small)

lemma file67_count:
  "Next_AsUInt32 (FromBytes file67) = Inr (67, \<lparr>buf = file67, pos = 4\<rparr>)"
  by (simp add: Next_AsUInt32_def Next_AsBytes_def file67_def AsUInt32_small FromBytes_def)

lemma file67_records:
  "drop 4 file67 = concat (replicate 67 (exampleRecord [65] 1)) @ replicate 1020 0"
  by (simp add: file67_def)

subsection \<open>Reading from a longer buffer\<close>

lemma Next_AsBytes_extend:
  assumes "Next_AsBytes n rd = Inr (bs, rd')"
  shows "Next_AsBytes n (rd\<lparr>buf := buf rd @ extra\<rparr>) = Inr (bs, rd'\<lparr>buf := buf rd' @ extra\<rparr>)"
  using assms by (auto simp: Next_AsBytes_def split: if_splits)

lemma Next_AsByte_extend:
  assumes "Next_AsByte rd = Inr (b, rd')"
  shows "Next_AsByte (rd\<lparr>buf := buf rd @ extra\<rparr>) = Inr (b, rd'\<lparr>buf := buf rd' @ extra\<rparr>)"
proof -
  from assms obtain bs where n: "Next_AsBytes 1 rd = Inr (bs, rd')" and b: "b = bs ! 0"
    by (auto simp: Next_AsByte_def split: sum.splits)
  from Next_AsBytes_extend [OF n] b show ?thesis by (simp add: Next_AsByte_def)
qed

lemma Next_AsUInt32_extend:
  assumes "Next_AsUInt32 rd = Inr (n, rd')"
  shows "Next_AsUInt32 (rd\<lparr>buf := buf rd @ extra\<rparr>) = Inr (n, rd'\<lparr>buf := buf rd' @ extra\<rparr>)"
proof -
  from assms obtain bs where n: "Next_AsBytes 4 rd = Inr (bs, rd')" and b: "n = AsUInt32 bs"
    by (auto simp: Next_AsUInt32_def split: sum.splits)
  from Next_AsBytes_extend [OF n] b show ?thesis by (simp add: Next_AsUInt32_def)
qed

lemma Next_AsUInt16_extend:
  assumes "Next_AsUInt16 rd = Inr (n, rd')"
  shows "Next_AsUInt16 (rd\<lparr>buf := buf rd @ extra\<rparr>) = Inr (n, rd'\<lparr>buf := buf rd' @ extra\<rparr>)"
proof -
  from assms obtain bs where n: "Next_AsBytes 2 rd = Inr (bs, rd')" and b: "n = AsUInt16 bs"
    by (auto simp: Next_AsUInt16_def split: sum.splits)
  from Next_AsBytes_extend [OF n] b show ?thesis by (simp add: Next_AsUInt16_def)
qed

lemma loadEvents_from_extend:
  "loadEvents_from eventIdx evs rd = Inr (evs', rd') \<Longrightarrow>
   loadEvents_from eventIdx evs (rd\<lparr>buf := buf rd @ extra\<rparr>)
     = Inr (evs', rd'\<lparr>buf := buf rd' @ extra\<rparr>)"
proof (induction eventIdx evs rd rule: loadEvents_from.induct)
  case (1 eventIdx evs rd)
  show ?case
  proof (cases "eventIdx < numEvents")
    case False
    with "1.prems" show ?thesis
      by (subst loadEvents_from.simps, subst (asm) loadEvents_from.simps) auto
  next
    case True
    show ?thesis
    proof (cases "Next_AsByte rd")
      case (Inl e)
      with True "1.prems" show ?thesis by (subst (asm) loadEvents_from.simps) simp
    next
      case (Inr p)
      obtain b rd1 where p: "p = (b, rd1)" by (cases p)
      from True "1.prems" Inr p
      have "loadEvents_from (Suc eventIdx)
               (if uint b \<noteq> EventNone then evs(int eventIdx \<mapsto> uint b) else evs) rd1
             = Inr (evs', rd')"
        by (subst (asm) loadEvents_from.simps) (simp add: Let_def)
      from "1.IH" [OF True Inr [unfolded p] refl refl this]
      show ?thesis
        using True Next_AsByte_extend [OF Inr [unfolded p], of extra]
        by (subst loadEvents_from.simps) (simp add: Let_def)
    qed
  qed
qed

lemma loadRecord_extend:
  assumes "loadRecord hashName hashIdx animdata rd = Inr (r, animdata', rd')"
  shows "loadRecord hashName hashIdx animdata (rd\<lparr>buf := buf rd @ extra\<rparr>)
           = Inr (r, animdata', rd'\<lparr>buf := buf rd' @ extra\<rparr>)"
proof -
  from assms obtain nameBytes rd1 fr rd2 sp rd3 pad rd4 evs where
    s1: "Next_AsBytes byteCountName rd = Inr (nameBytes, rd1)" and
    z: "nameBytes ! (byteCountName - 1) = 0" and
    s2: "Next_AsUInt32 rd1 = Inr (fr, rd2)" and
    s3: "Next_AsUInt16 rd2 = Inr (sp, rd3)" and
    s4: "Next_AsBytes byteCountSpeedPadding rd3 = Inr (pad, rd4)" and
    s5: "loadEvents_from 0 Map.empty rd4 = Inr (evs, rd')" and
    r: "r = \<lparr>name = stripZeros (string_of_bytes nameBytes), framesPerDirection = fr,
             speed = sp, events = evs\<rparr>" and
    a: "animdata' = addRecord hashName hashIdx r animdata"
    unfolding loadRecord_def
    by (auto simp: Let_def addRecord_def entriesAt_def
             split: sum.splits if_splits option.splits)
  note e = Next_AsBytes_extend [OF s1, of extra] Next_AsUInt32_extend [OF s2, of extra]
    Next_AsUInt16_extend [OF s3, of extra] Next_AsBytes_extend [OF s4, of extra]
    loadEvents_from_extend [OF s5, of extra]
  show ?thesis
    unfolding loadRecord_def e sum.case prod.case
    using z by (simp add: Let_def r a addRecord_def entriesAt_def split: option.splits)
qed

lemma loadRecords_from_extend:
  "loadRecords_from hashName hashIdx recCount recordIdx recs animdata rd
     = Inr (recs', animdata', rd') \<Longrightarrow>
   loadRecords_from hashName hashIdx recCount recordIdx recs animdata
       (rd\<lparr>buf := buf rd @ extra\<rparr>)
     = Inr (recs', animdata', rd'\<lparr>buf := buf rd' @ extra\<rparr>)"
proof (induction hashName hashIdx recCount recordIdx recs animdata rd
        rule: loadRecords_from.induct)
  case (1 hashName hashIdx recCount recordIdx recs animdata rd)
  show ?case
  proof (cases "recordIdx < recCount")
    case False
    with "1.prems" show ?thesis
      by (subst loadRecords_from.simps, subst (asm) loadRecords_from.simps) auto
  next
    case True
    show ?thesis
    proof (cases "loadRecord hashName hashIdx animdata rd")
      case (Inl e)
      with True "1.prems" show ?thesis by (subst (asm) loadRecords_from.simps) simp
    next
      case (Inr p)
      obtain r ad1 rd1 where p: "p = (r, ad1, rd1)" by (cases p)
      from True "1.prems" Inr p
      have "loadRecords_from hashName hashIdx recCount (recordIdx + 1) (recs @ [r]) ad1 rd1
             = Inr (recs', animdata', rd')"
        by (subst (asm) loadRecords_from.simps) simp
      from "1.IH" [OF True Inr [unfolded p] refl refl this]
      show ?thesis
        using True loadRecord_extend [OF Inr [unfolded p], of extra]
        by (subst loadRecords_from.simps) simp
    qed
  qed
qed

lemma loadBlock_extend:
  assumes "loadBlock hashName hashIdx blockIdx (animdata, rd) = Inr (animdata', rd')"
  shows "loadBlock hashName hashIdx blockIdx (animdata, rd\<lparr>buf := buf rd @ extra\<rparr>)
           = Inr (animdata', rd'\<lparr>buf := buf rd' @ extra\<rparr>)"
proof -
  from assms obtain n rd1 where a1: "Next_AsUInt32 rd = Inr (n, rd1)"
    by (auto simp: loadBlock_def split: sum.splits)
  from assms a1 have le: "\<not> n > maxRecordsPerBlock"
    by (auto simp: loadBlock_def split: if_splits)
  from assms a1 le obtain recs ad1
    where a2: "loadRecords_from hashName hashIdx n 0 [] animdata rd1 = Inr (recs, ad1, rd')"
    by (auto simp: loadBlock_def Let_def split: sum.splits)
  note e = Next_AsUInt32_extend [OF a1, of extra] loadRecords_from_extend [OF a2, of extra]
  from assms show ?thesis
    unfolding loadBlock_def prod.case e a1 a2 sum.case
    using le by (simp add: Let_def)
qed

lemma loadBlocks_extend:
  "loadBlocks hashName hashIdx idxs (animdata, rd) = Inr (animdata', rd') \<Longrightarrow>
   loadBlocks hashName hashIdx idxs (animdata, rd\<lparr>buf := buf rd @ extra\<rparr>)
     = Inr (animdata', rd'\<lparr>buf := buf rd' @ extra\<rparr>)"
proof (induction idxs arbitrary: animdata rd)
  case Nil
  then show ?case by simp
next
  case (Cons blockIdx idxs)
  from Cons.prems obtain ad1 rd1
    where one: "loadBlock hashName hashIdx blockIdx (animdata, rd) = Inr (ad1, rd1)"
      and rest: "loadBlocks hashName hashIdx idxs (ad1, rd1) = Inr (animdata', rd')"
    by (auto split: sum.splits)
  from loadBlock_extend [OF one, of extra] Cons.IH [OF rest] show ?case by simp
qed

lemma Load_extend:
  assumes "Load hashName data = (Some animdata, err)" and "extra \<noteq> []"
  shows "Load hashName (data @ extra) = (None, Some UnableToParse)"
proof -
  from assms(1) obtain rd
    where l: "loadBlocks hashName 0 [0..<numBlocks] (emptyAnimationData, FromBytes data)
                = Inr (animdata, rd)"
      and p: "Position rd = length data"
    by (auto simp: Load_eq split: sum.splits if_splits)
  have f: "FromBytes (data @ extra) = (FromBytes data)\<lparr>buf := buf (FromBytes data) @ extra\<rparr>"
    by (simp add: FromBytes_def)
  from loadBlocks_extend [OF l, of extra] p assms(2) show ?thesis
    by (simp add: Load_eq f Position_def)
qed

lemma loadBlocks_wellFormed:
  assumes "length bks = numBlocks" and "\<forall>bk \<in> set bks. wellFormedBucket bk"
  shows "loadBlocks hashName 0 [0..<numBlocks]
           (emptyAnimationData, FromBytes (concat (map bucketBytes bks) @ extra))
         = Inr (decodedStore hashName bks,
                \<lparr>buf = concat (map bucketBytes bks) @ extra,
                 pos = length (concat (map bucketBytes bks))\<rparr>)"
proof -
  let ?data = "concat (map bucketBytes bks) @ extra"
  have "loadBlocks hashName 0 [0..<numBlocks] (emptyAnimationData, FromBytes ?data) =
          Inr ((fold (addRecord hashName 0)
                   (concat (map (records \<circ> blockOfBucket) bks)) emptyAnimationData)
                  \<lparr>blocks := blocks (emptyAnimationData :: 'a AnimationData) @ map blockOfBucket bks\<rparr>,
               (FromBytes ?data)\<lparr>pos := pos (FromBytes ?data)
                                       + length (concat (map bucketBytes bks))\<rparr>)"
    using assms by (intro loadBlocks_ok) (simp_all add: FromBytes_def)
  then show ?thesis
    by (simp add: decodedStore_def FromBytes_def emptyAnimationData_def)
qed

subsection \<open>What the decoders return with an error\<close>






section \<open>Properties of the composite object document\<close>

text \<open>
  C7. For every document produced by a successful \<open>Unmarshal\<close>, the priority matrix has
  exactly the declared dimensions: as many directions as \<open>NumberOfDirections\<close>, in each
  direction as many frames as \<open>FramesPerDirection\<close>, in each frame as many slots as
  \<open>NumberOfLayers\<close>; and the entries are the bytes of the input that follow the frame
  events, laid out direction-major, then frame, then layer slot.
\<close>

theorem priority_dimensions:
  assumes "Unmarshal wcFromString trimSpace data = (c, None)"
  shows "int (length (Priority c)) = NumberOfDirections c \<and>
         (\<forall>d < length (Priority c).
            int (length (Priority c ! d)) = FramesPerDirection c \<and>
            (\<forall>f < length (Priority c ! d).
               int (length (Priority c ! d ! f)) = NumberOfLayers c \<and>
               (\<forall>i < length (Priority c ! d ! f).
                  Priority c ! d ! f ! i =
                    uint (data ! (priorityOffset data
                            + (d * nat (FramesPerDirection c) + f) * nat (NumberOfLayers c)
                            + i)))))"
proof -
  let ?L = "declaredLayers data" and ?F = "declaredFrames data" and ?D = "declaredDirections data"
  from assms have ok: "declaredSize data \<le> length data"
    and c: "c = decodedCOF wcFromString trimSpace data"
    by (simp_all add: Unmarshal_def COF_Unmarshal_None_iff)
  have P: "Priority c = priorityOf ?D ?F ?L (take (?D * (?F * ?L)) (drop (priorityOffset data) data))"
    and flds: "NumberOfDirections c = int ?D" "FramesPerDirection c = int ?F"
      "NumberOfLayers c = int ?L"
    by (simp_all add: c decodedCOF_def)
  have nth: "take (?D * (?F * ?L)) (drop (priorityOffset data) data) ! ((d * ?F + f) * ?L + i)
             = data ! (priorityOffset data + (d * ?F + f) * ?L + i)"
    if "d < ?D" "f < ?F" "i < ?L" for d f i
    using priority_index_bound [OF that] ok
    by (simp add: declaredSize_def add.assoc)
  show ?thesis
    unfolding P flds by (simp add: length_priorityOf nth)
qed

lemma exampleCOF_decodes:
  "Unmarshal exFromString exTrimSpace exampleCOF
     = (decodedCOF exFromString exTrimSpace exampleCOF, None)"
  by (simp add: Unmarshal_def COF_Unmarshal_None_iff exampleCOF_def declaredSize_def
        priorityOffset_def framesOffset_def declaredLayers_def declaredFrames_def
        declaredDirections_def cof_consts)

theorem priority_dimensions_witness:
  "Unmarshal exFromString exTrimSpace exampleCOF
     = (decodedCOF exFromString exTrimSpace exampleCOF, None)
   \<and> length (Priority (decodedCOF exFromString exTrimSpace exampleCOF)) = 2
   \<and> Priority (decodedCOF exFromString exTrimSpace exampleCOF) ! 1 ! 0 ! 1 = 8"
proof -
  let ?c = "decodedCOF exFromString exTrimSpace exampleCOF"
  note dims = priority_dimensions [OF exampleCOF_decodes]
  have flds: "NumberOfDirections ?c = 2" "FramesPerDirection ?c = 1" "NumberOfLayers ?c = 2"
    by (simp_all add: decodedCOF_def exampleCOF_def declaredLayers_def declaredFrames_def
          declaredDirections_def cof_consts)
  have off: "priorityOffset exampleCOF = 47"
    by (simp add: exampleCOF_def priorityOffset_def framesOffset_def declaredLayers_def
          declaredFrames_def cof_consts)
  from dims flds have len: "length (Priority ?c) = 2" by simp
  with dims flds have len1: "length (Priority ?c ! 1) = 1" by simp
  with dims flds len have len2: "length (Priority ?c ! 1 ! 0) = 2" by simp
  from dims len len1 len2 flds off
  have "Priority ?c ! 1 ! 0 ! 1 = uint (exampleCOF ! 50)" by simp
  moreover have "exampleCOF ! 50 = 8" by (simp add: exampleCOF_def nth_append)
  ultimately show ?thesis using len exampleCOF_decodes by simp
qed

text \<open>
  C9. For every document produced by a successful \<open>Unmarshal\<close>, the map
  \<open>CompositeLayers\<close> has an entry for exactly the types of the decoded layers; every
  entry is a valid index into \<open>CofLayers\<close>, the layer at that index has that type, and
  no later layer has it (the last layer of a type wins); and all the layers the header
  declares are in the sequence, in file order.
\<close>

theorem type_index_map:
  assumes "Unmarshal wcFromString trimSpace data = (c, None)"
  shows "dom (CompositeLayers c) = Type ` set (CofLayers c)
       \<and> (\<forall>t v. CompositeLayers c t = Some v \<longrightarrow>
             0 \<le> v \<and> v < int (length (CofLayers c))
             \<and> Type (CofLayers c ! nat v) = t
             \<and> (\<forall>j. nat v < j \<and> j < length (CofLayers c) \<longrightarrow> Type (CofLayers c ! j) \<noteq> t))
       \<and> int (length (CofLayers c)) = NumberOfLayers c
       \<and> CofLayers c = decodedLayers wcFromString trimSpace data"
proof -
  from assms have c: "c = decodedCOF wcFromString trimSpace data"
    by (simp add: Unmarshal_def COF_Unmarshal_None_iff)
  have m: "CompositeLayers c = lastIndexMap (CofLayers c)"
    and ls: "CofLayers c = decodedLayers wcFromString trimSpace data"
    and n: "int (length (CofLayers c)) = NumberOfLayers c"
    by (simp_all add: c decodedCOF_def decodedLayers_def)
  have "0 \<le> v \<and> v < int (length (CofLayers c)) \<and> Type (CofLayers c ! nat v) = t
        \<and> (\<forall>j. nat v < j \<and> j < length (CofLayers c) \<longrightarrow> Type (CofLayers c ! j) \<noteq> t)"
    if "CompositeLayers c t = Some v" for t v
    using lastIndexMap_Some [of "CofLayers c" t v] that unfolding m by auto
  then show ?thesis
    using ls n by (simp add: m lastIndexMap_dom)
qed

lemma exampleCOF_layers:
  "decodedLayers exFromString exTrimSpace exampleCOF =
     [\<lparr>Type = 1, Shadow = 1, Selectable = True, Transparent = False, DrawEffect = 0,
        WeaponClass = 1\<rparr>,
      \<lparr>Type = 1, Shadow = 0, Selectable = False, Transparent = True, DrawEffect = 3,
        WeaponClass = 2\<rparr>]"
proof -
  have n: "declaredLayers exampleCOF = 2"
    by (simp add: exampleCOF_def declaredLayers_def cof_consts)
  have upt: "[0..<2] = [0, Suc 0]" by (simp add: upt_rec)
  have b0: "layerBytes exampleCOF 0 = [1, 1, 1, 0, 0, 104, 116, 104, 0]"
    and b1: "layerBytes exampleCOF (Suc 0) = [1, 0, 0, 1, 3, 98, 111, 119, 0]"
    by (simp_all add: layerBytes_def exampleCOF_def cof_consts)
  have s0: "exTrimSpace (stripZeros (string_of_bytes [104, 116, 104, 0])) = ''hth''"
    and s1: "exTrimSpace (stripZeros (string_of_bytes [98, 111, 119, 0])) = ''bow''"
    by code_simp+
  show ?thesis
    unfolding decodedLayers_def n upt
    by (simp add: b0 b1 layerOfBytes_def layerType_def layerShadow_def layerSelectable_def
          layerTransparent_def layerDrawEffect_def layerWeaponClass_def s0 s1 exFromString_def)
qed

theorem type_index_map_witness:
  "Unmarshal exFromString exTrimSpace exampleCOF
     = (decodedCOF exFromString exTrimSpace exampleCOF, None)
   \<and> length (CofLayers (decodedCOF exFromString exTrimSpace exampleCOF)) = 2
   \<and> CompositeLayers (decodedCOF exFromString exTrimSpace exampleCOF) 1 = Some 1
   \<and> CompositeLayers (decodedCOF exFromString exTrimSpace exampleCOF) 0 = None"
proof -
  let ?c = "decodedCOF exFromString exTrimSpace exampleCOF"
  note m = type_index_map [OF exampleCOF_decodes]
  from m have ls: "CofLayers ?c = decodedLayers exFromString exTrimSpace exampleCOF"
    by blast
  from m have d: "dom (CompositeLayers ?c) = {1}"
    unfolding ls exampleCOF_layers by simp
  then have "0 \<notin> dom (CompositeLayers ?c)" and "1 \<in> dom (CompositeLayers ?c)" by simp_all
  then have none: "CompositeLayers ?c 0 = None"
    and "\<exists>v. CompositeLayers ?c 1 = Some v" by (simp_all add: domIff)
  then obtain v where v: "CompositeLayers ?c 1 = Some v" by blast
  with m have A: "0 \<le> v \<and> v < int (length (CofLayers ?c))
      \<and> (\<forall>j. nat v < j \<and> j < length (CofLayers ?c) \<longrightarrow> Type (CofLayers ?c ! j) \<noteq> 1)"
    by blast
  then have B: "nat v < 1 \<and> 1 < length (CofLayers ?c) \<longrightarrow> Type (CofLayers ?c ! 1) \<noteq> 1"
    by blast
  have "Type (CofLayers ?c ! 1) = 1" and "length (CofLayers ?c) = 2"
    by (simp_all add: ls exampleCOF_layers)
  with A B have "v = 1" by auto
  with v none show ?thesis
    using exampleCOF_decodes by (simp add: ls exampleCOF_layers)
qed

text \<open>
  C10. \<open>Marshal\<close> writes each of \<open>NumberOfLayers\<close>, \<open>FramesPerDirection\<close>,
  \<open>NumberOfDirections\<close> and \<open>Speed\<close> as one byte, that is reduced modulo 256:
  whenever it returns, the bytes at offsets 0, 1, 2 and at the offset after the reserved
  header bytes are the four fields modulo 256. For a document that a successful
  \<open>Unmarshal\<close> produced the four fields lie in 0..255, \<open>Marshal\<close> does return, and the
  four bytes are the fields themselves; a document built by the caller with a field
  outside 0..255 is encoded with the field wrapped.
\<close>

theorem header_fields_one_byte:
  "(\<forall>out. Marshal wcString c = Inr out \<longrightarrow>
      4 + length (unknownHeaderBytes c) \<le> length out
      \<and> uint (out ! 0) = NumberOfLayers c mod 256
      \<and> uint (out ! 1) = FramesPerDirection c mod 256
      \<and> uint (out ! 2) = NumberOfDirections c mod 256
      \<and> uint (out ! (3 + length (unknownHeaderBytes c))) = Speed c mod 256)
   \<and> (\<forall>data. Unmarshal wcFromString trimSpace data = (c, None) \<longrightarrow>
      0 \<le> NumberOfLayers c \<and> NumberOfLayers c \<le> 255
      \<and> 0 \<le> FramesPerDirection c \<and> FramesPerDirection c \<le> 255
      \<and> 0 \<le> NumberOfDirections c \<and> NumberOfDirections c \<le> 255
      \<and> 0 \<le> Speed c \<and> Speed c \<le> 255
      \<and> (\<exists>out. Marshal wcString c = Inr out
             \<and> uint (out ! 0) = NumberOfLayers c
             \<and> uint (out ! 1) = FramesPerDirection c
             \<and> uint (out ! 2) = NumberOfDirections c
             \<and> uint (out ! (3 + length (unknownHeaderBytes c))) = Speed c))"
proof -
  have wrap: "4 + length (unknownHeaderBytes c) \<le> length out
      \<and> uint (out ! 0) = NumberOfLayers c mod 256
      \<and> uint (out ! 1) = FramesPerDirection c mod 256
      \<and> uint (out ! 2) = NumberOfDirections c mod 256
      \<and> uint (out ! (3 + length (unknownHeaderBytes c))) = Speed c mod 256"
    if "Marshal wcString c = Inr out" for out
  proof -
    from that COF_Marshal_prefix [of wcString c out] obtain tl where
      out: "out = [word_of_int (NumberOfLayers c), word_of_int (FramesPerDirection c),
                      word_of_int (NumberOfDirections c)]
                     @ unknownHeaderBytes c @ [word_of_int (Speed c)] @ tl"
      unfolding Marshal_def by auto
    show ?thesis
      unfolding out by (simp add: nth_append uint_byte_of_int)
  qed
  have dec: "0 \<le> NumberOfLayers c \<and> NumberOfLayers c \<le> 255
      \<and> 0 \<le> FramesPerDirection c \<and> FramesPerDirection c \<le> 255
      \<and> 0 \<le> NumberOfDirections c \<and> NumberOfDirections c \<le> 255
      \<and> 0 \<le> Speed c \<and> Speed c \<le> 255
      \<and> (\<exists>out. Marshal wcString c = Inr out
             \<and> uint (out ! 0) = NumberOfLayers c
             \<and> uint (out ! 1) = FramesPerDirection c
             \<and> uint (out ! 2) = NumberOfDirections c
             \<and> uint (out ! (3 + length (unknownHeaderBytes c))) = Speed c)"
    if "Unmarshal wcFromString trimSpace data = (c, None)" for data
  proof -
    from that have ok: "numHeaderBytes \<le> length data" "declaredSize data \<le> length data"
      and c: "c = decodedCOF wcFromString trimSpace data"
      by (simp_all add: Unmarshal_def COF_Unmarshal_None_iff)
    note r = decoded_fields_range [of wcFromString trimSpace data, folded c]
    from COF_Marshal_decoded [OF ok, of wcString wcFromString trimSpace]
    obtain out where m: "Marshal wcString c = Inr out" by (simp add: Marshal_def c)
    from wrap [OF m] r m show ?thesis by auto
  qed
  from wrap dec show ?thesis by blast
qed

theorem header_fields_one_byte_witness:
  "Marshal exString (New\<lparr>NumberOfLayers := - 1, Speed := 300\<rparr>)
     = Inr ([255, 0, 0] @ replicate 21 0 @ [44] @ replicate 3 0)
   \<and> uint (([255, 0, 0] @ replicate 21 0 @ [44] @ replicate 3 0 :: byte list) ! 0) = (- 1) mod 256
   \<and> uint (([255, 0, 0] @ replicate 21 0 @ [44] @ replicate 3 0 :: byte list) ! 24) = 300 mod 256
   \<and> Unmarshal exFromString exTrimSpace exampleCOF
       = (decodedCOF exFromString exTrimSpace exampleCOF, None)
   \<and> Speed (decodedCOF exFromString exTrimSpace exampleCOF) \<le> 255
   \<and> (\<exists>out. Marshal exString (decodedCOF exFromString exTrimSpace exampleCOF) = Inr out
          \<and> uint (out ! 0) = NumberOfLayers (decodedCOF exFromString exTrimSpace exampleCOF))"
proof -
  note t1 = header_fields_one_byte [of exString "New\<lparr>NumberOfLayers := - 1, Speed := 300\<rparr>",
              THEN conjunct1, rule_format, OF Marshal_wrapped_example]
  note t2 = header_fields_one_byte [of exString "decodedCOF exFromString exTrimSpace exampleCOF"
              exFromString exTrimSpace, THEN conjunct2, rule_format, OF exampleCOF_decodes]
  have len: "length (unknownHeaderBytes (New\<lparr>NumberOfLayers := - 1, Speed := 300\<rparr>)) = 21"
    by (simp add: New_def cof_consts)
  from t1 have "uint (([255, 0, 0] @ replicate 21 0 @ [44] @ replicate 3 0 :: byte list) ! 0) = (- 1) mod 256"
    and "uint (([255, 0, 0] @ replicate 21 0 @ [44] @ replicate 3 0 :: byte list) ! 24) = 300 mod 256"
    unfolding len by (simp_all add: New_def)
  with t2 Marshal_wrapped_example exampleCOF_decodes show ?thesis by blast
qed

text \<open>
  C2. \<open>Marshal\<close> is to emit the weapon-class field of every layer as exactly three
  characters and a zero terminator, four bytes, cutting a longer string, so that every
  encoded layer descriptor is nine bytes long. The code misses this twice. Nothing pads
  a string shorter than three characters: the layer of the file \<open>exampleNoWeapon\<close>,
  whose weapon class has the empty string, is encoded in six bytes, the file in 34 bytes
  instead of 37, and \<open>Unmarshal\<close>, which reads nine bytes for every layer, runs out of
  data on it. And the test \<open>idx > maxCodeLength\<close> lets the character at offset 3
  through: a string of seven characters is encoded as four characters and the
  terminator, a descriptor of ten bytes.
\<close>

theorem layer_field_width_failing_input:
  "snd (Unmarshal exFromString exTrimSpace exampleNoWeapon) = None
   \<and> map (exString \<circ> WeaponClass)
         (CofLayers (fst (Unmarshal exFromString exTrimSpace exampleNoWeapon))) = [[]]
   \<and> Marshal exString (fst (Unmarshal exFromString exTrimSpace exampleNoWeapon))
       = Inr ([1, 0, 0] @ replicate 21 0 @ [0] @ [0, 0, 0] @ [0, 0, 0, 0, 0, 0])
   \<and> snd (Unmarshal exFromString exTrimSpace
             ([1, 0, 0] @ replicate 21 0 @ [0] @ [0, 0, 0] @ [0, 0, 0, 0, 0, 0]))
       = Some OutOfData
   \<and> marshalLayer exString zeroCofLayer [] = [0, 0, 0, 0, 0, 0]
   \<and> marshalLayer exLongString zeroCofLayer [] = [0, 0, 0, 0, 0, 97, 98, 99, 100, 0]"
  by code_simp

text \<open>
  C1, as stated: for every buffer that decodes successfully into a document whose
  weapon-class codes have at most three ASCII characters, encoding the decoded document
  gives the buffer back. This fails on three counts. \<open>Unmarshal\<close> accepts bytes after
  the priority matrix and \<open>Marshal\<close> does not write them; a flag byte above 1 is decoded
  to true and encoded as 1; a weapon-class code shorter than three characters is encoded
  without padding, so that the layer descriptor shrinks.
\<close>

theorem round_trip_counterexample:
  "snd (Unmarshal exFromString exTrimSpace (exampleCOF @ [0])) = None
   \<and> map (exString \<circ> WeaponClass)
         (CofLayers (fst (Unmarshal exFromString exTrimSpace (exampleCOF @ [0]))))
       = [''hth'', ''bow'']
   \<and> Marshal exString (fst (Unmarshal exFromString exTrimSpace (exampleCOF @ [0])))
       = Inr exampleCOF
   \<and> exampleCOF \<noteq> exampleCOF @ [0]
   \<and> snd (Unmarshal exFromString exTrimSpace exampleFlag2) = None
   \<and> map (exString \<circ> WeaponClass)
         (CofLayers (fst (Unmarshal exFromString exTrimSpace exampleFlag2)))
       = [''hth'', ''bow'']
   \<and> Marshal exString (fst (Unmarshal exFromString exTrimSpace exampleFlag2))
       = Inr exampleCOF
   \<and> exampleCOF \<noteq> exampleFlag2
   \<and> snd (Unmarshal exFromString exTrimSpace exampleNoWeapon) = None
   \<and> map (exString \<circ> WeaponClass)
         (CofLayers (fst (Unmarshal exFromString exTrimSpace exampleNoWeapon)))
       = [[]]
   \<and> Marshal exString (fst (Unmarshal exFromString exTrimSpace exampleNoWeapon))
       = Inr ([1, 0, 0] @ replicate 21 0 @ [0] @ [0, 0, 0] @ [0, 0, 0, 0, 0, 0])
   \<and> [1, 0, 0] @ replicate 21 0 @ [0] @ [0, 0, 0] @ [0, 0, 0, 0, 0, 0] \<noteq> exampleNoWeapon"
  by code_simp

text \<open>
  C1, amended: for every buffer that decodes successfully, that ends with the priority
  matrix (its length is the size its header declares), and in which every layer
  descriptor has both flag bytes 0 or 1 and a weapon-class field made of a code of exactly
  three ASCII characters and the zero terminator, a code that the weapon-class
  enumeration maps to a class and back to itself, encoding the decoded document gives
  exactly the buffer back.
\<close>

theorem round_trip:
  assumes "Unmarshal wcFromString trimSpace data = (c, None)"
    and "length data = declaredSize data"
    and "\<forall>k < declaredLayers data.
           canonicalLayerBytes wcFromString wcString trimSpace (layerBytes data k)"
  shows "Marshal wcString c = Inr data"
  using assms by (rule Marshal_Unmarshal_canonical)

theorem round_trip_witness:
  "Unmarshal exFromString exTrimSpace exampleCOF
     = (decodedCOF exFromString exTrimSpace exampleCOF, None)
   \<and> length exampleCOF = declaredSize exampleCOF
   \<and> canonicalLayerBytes exFromString exString exTrimSpace (layerBytes exampleCOF 0)
   \<and> canonicalLayerBytes exFromString exString exTrimSpace (layerBytes exampleCOF 1)
   \<and> Marshal exString (decodedCOF exFromString exTrimSpace exampleCOF) = Inr exampleCOF"
proof -
  have "declaredLayers exampleCOF = 2"
    by (simp add: exampleCOF_def declaredLayers_def cof_consts)
  with exampleCOF_canonical
  have "canonicalLayerBytes exFromString exString exTrimSpace (layerBytes exampleCOF 0)"
    and "canonicalLayerBytes exFromString exString exTrimSpace (layerBytes exampleCOF 1)"
    by simp_all
  with round_trip [OF exampleCOF_decodes exampleCOF_size exampleCOF_canonical]
    exampleCOF_decodes exampleCOF_size
  show ?thesis by simp
qed

section \<open>Properties of the animation metadata store\<close>

text \<open>
  C4. For every store a successful \<open>Load\<close> returns and every name, \<open>GetRecords\<close>
  returns exactly the records of that name, in the order in which they were decoded
  across the 256 blocks (the empty sequence when the name was never seen), and
  \<open>GetRecord\<close> returns the last of them, or \<open>nil\<close> when there is none.
\<close>

theorem lookup_by_name:
  assumes "Load hashName data = (Some animdata, err)"
  shows "GetRecords animdata nm = filter (\<lambda>r. name r = nm) (allRecords animdata)
       \<and> GetRecord animdata nm =
           (if filter (\<lambda>r. name r = nm) (allRecords animdata) = [] then None
            else Some (last (filter (\<lambda>r. name r = nm) (allRecords animdata))))
       \<and> length (blocks animdata) = numBlocks"
proof -
  note L = Load_Some [OF assms]
  have g: "GetRecords animdata nm = filter (\<lambda>r. name r = nm) (allRecords animdata)"
    by (simp add: GetRecords_def L(5))
  have "GetRecord animdata nm =
           (if GetRecords animdata nm = [] then None else Some (last (GetRecords animdata nm)))"
    by (simp add: GetRecord_def Let_def last_conv_nth)
  with g L(2) show ?thesis by simp
qed

theorem lookup_by_name_witness:
  "Load (\<lambda>s. s) exampleAnimData = (Some (decodedStore (\<lambda>s. s) exampleBuckets), None)
   \<and> GetRecords (decodedStore (\<lambda>s. s) exampleBuckets) ''A1''
       = [recordOfBytes (exampleRecord [65, 49] 8), recordOfBytes (exampleRecord [65, 49] 9)]
   \<and> GetRecord (decodedStore (\<lambda>s. s) exampleBuckets) ''A1''
       = Some (recordOfBytes (exampleRecord [65, 49] 9))
   \<and> GetRecords (decodedStore (\<lambda>s. s) exampleBuckets) ''ZZ'' = []
   \<and> GetRecord (decodedStore (\<lambda>s. s) exampleBuckets) ''ZZ'' = None"
proof -
  note a = lookup_by_name [OF exampleAnimData_loads, of "\<lambda>s. s" "''A1''"]
  note z = lookup_by_name [OF exampleAnimData_loads, of "\<lambda>s. s" "''ZZ''"]
  from a z exampleAnimData_loads [of "\<lambda>s. s"] show ?thesis
    by (simp add: exampleAnimData_records exampleRecord_name)
qed

text \<open>
  C3. After a successful \<open>Load\<close> the hash journal is to hold the hash of the name of
  the i-th record read at index i. The code declares \<open>hashIdx := 0\<close> for that and
  never increments it, so every hash is written to slot 0. On the example file, whose
  records are named \<open>A1\<close>, \<open>B\<close>, \<open>A1\<close>, \<open>C\<close> in file order, and with the name
  itself as its hash, slot 0 holds the hash of the last record and slots 1, 2 and 3 were
  never assigned.
\<close>

theorem hash_journal_failing_input:
  "Load (\<lambda>s. s) exampleAnimData = (Some (decodedStore (\<lambda>s. s) exampleBuckets), None)
   \<and> map name (allRecords (decodedStore (\<lambda>s. s) exampleBuckets)) = [''A1'', ''B'', ''A1'', ''C'']
   \<and> hashTable (decodedStore (\<lambda>s. s) exampleBuckets) 0 = Some ''C''
   \<and> hashTable (decodedStore (\<lambda>s. s) exampleBuckets) 1 = None
   \<and> hashTable (decodedStore (\<lambda>s. s) exampleBuckets) 2 = None
   \<and> hashTable (decodedStore (\<lambda>s. s) exampleBuckets) 3 = None"
proof -
  have "hashTable (decodedStore (\<lambda>s. s) exampleBuckets) = [0 \<mapsto> ''C'']"
    unfolding hashTable_decodedStore exampleAnimData_records [unfolded allRecords_decodedStore]
    by (simp add: exampleRecord_name)
  then show ?thesis
    using exampleAnimData_loads [of "\<lambda>s. s"]
    by (simp add: exampleAnimData_records exampleRecord_name)
qed

text \<open>
  C6. The bucket of index \<open>k\<close> is reached when the \<open>k\<close> buckets before it were
  decoded; \<open>n\<close> is the 32-bit count read there. Whenever \<open>n\<close> exceeds 67, \<open>Load\<close>
  fails with the error \<open>more than 67 records in block\<close>, whatever follows the count. A
  count of exactly 67 passes the test: the bucket never fails with that error, and when
  67 well-formed records follow the count, it is decoded into a block of 67 records.
\<close>

theorem record_count_limit:
  assumes "k < numBlocks"
    and "loadBlocks hashName 0 [0..<k] (emptyAnimationData, FromBytes data)
           = Inr (animdata, reader)"
    and "Next_AsUInt32 reader = Inr (n, reader')"
  shows "(n > 67 \<longrightarrow> Load hashName data = (None, Some MoreThanMaxRecords))
       \<and> (n = 67 \<longrightarrow> loadBlock hashName 0 k (animdata, reader) \<noteq> Inl MoreThanMaxRecords)
       \<and> (n = 67 \<and> (\<exists>rbs rest. drop (pos reader') (buf reader') = concat rbs @ rest
                       \<and> length rbs = 67 \<and> (\<forall>rb \<in> set rbs. wellFormedRecord rb)) \<longrightarrow>
            (\<exists>animdata' reader''.
                loadBlock hashName 0 k (animdata, reader) = Inr (animdata', reader'')
                \<and> recordCount (last (blocks animdata')) = 67
                \<and> length (records (last (blocks animdata'))) = 67))"
proof (intro conjI impI)
  assume big: "n > 67"
  with assms(3) have bad: "loadBlock hashName 0 k (animdata, reader) = Inl MoreThanMaxRecords"
    by (simp add: loadBlock_def maxRecordsPerBlock_def)
  have "[0..<numBlocks] = [0..<k] @ k # [Suc k..<numBlocks]"
    using assms(1) by (metis less_imp_le_nat upt_add_eq_append upt_conv_Cons le_add_diff_inverse add_0 zero_le)
  then show "Load hashName data = (None, Some MoreThanMaxRecords)"
    by (simp add: Load_eq loadBlocks_append assms(2) bad)
next
  assume n: "n = 67"
  show "loadBlock hashName 0 k (animdata, reader) \<noteq> Inl MoreThanMaxRecords"
    using assms(3) n
    by (auto simp: loadBlock_def maxRecordsPerBlock_def Let_def
             split: sum.splits dest: loadRecords_from_error)
next
  assume "n = 67 \<and> (\<exists>rbs rest. drop (pos reader') (buf reader') = concat rbs @ rest
                       \<and> length rbs = 67 \<and> (\<forall>rb \<in> set rbs. wellFormedRecord rb))"
  then obtain rbs rest where n: "n = 67"
    and d: "drop (pos reader') (buf reader') = concat rbs @ rest"
    and len: "length rbs = 67" and wf: "\<forall>rb \<in> set rbs. wellFormedRecord rb"
    by blast
  from assms(3) have p: "pos reader' \<le> length (buf reader')"
    by (auto simp: Next_AsUInt32_def Next_AsBytes_def split: if_splits sum.splits)
  have rs: "loadRecords_from hashName 0 n 0 [] animdata reader' =
           Inr ([] @ map recordOfBytes rbs,
                fold (addRecord hashName 0) (map recordOfBytes rbs) animdata,
                reader'\<lparr>pos := pos reader' + recordSize * length rbs\<rparr>)"
    using wf len n by (intro loadRecords_from_ok [OF p d]) simp_all
  show "\<exists>animdata' reader''.
                loadBlock hashName 0 k (animdata, reader) = Inr (animdata', reader'')
                \<and> recordCount (last (blocks animdata')) = 67
                \<and> length (records (last (blocks animdata'))) = 67"
    using assms(3) len rs unfolding n
    by (simp add: loadBlock_def maxRecordsPerBlock_def)
qed

theorem record_count_limit_witness:
  "Load (\<lambda>s. s) fileTooMany = (None, Some MoreThanMaxRecords)
   \<and> Load (\<lambda>s. s) file67
       = (Some (decodedStore (\<lambda>s. s) (bucketOf67 # replicate 255 ([0, 0, 0, 0], []))), None)
   \<and> Next_AsUInt32 (FromBytes file67) = Inr (67, \<lparr>buf = file67, pos = 4\<rparr>)
   \<and> loadBlock (\<lambda>s. s) 0 0 (emptyAnimationData, FromBytes file67) \<noteq> Inl MoreThanMaxRecords
   \<and> (\<exists>animdata' reader''.
         loadBlock (\<lambda>s. s) 0 0 (emptyAnimationData, FromBytes file67) = Inr (animdata', reader'')
         \<and> recordCount (last (blocks animdata')) = 67
         \<and> length (records (last (blocks animdata'))) = 67)"
proof -
  have k: "(1 :: nat) < numBlocks" "(0 :: nat) < numBlocks" by (simp_all add: numBlocks_def)
  note rej = record_count_limit [OF k(1) fileTooMany_prefix fileTooMany_count, of "\<lambda>s. s"]
  have pre: "loadBlocks (\<lambda>s. s) 0 [0..<0] (emptyAnimationData, FromBytes file67)
               = Inr (emptyAnimationData, FromBytes file67)"
    by simp
  note acc = record_count_limit [OF k(2) pre file67_count]
  have "\<exists>rbs rest. drop (pos \<lparr>buf = file67, pos = 4\<rparr>) (buf \<lparr>buf = file67, pos = 4\<rparr>)
            = concat rbs @ rest
          \<and> length rbs = 67 \<and> (\<forall>rb \<in> set rbs. wellFormedRecord rb)"
    by (intro exI [of _ "replicate 67 (exampleRecord [65] 1)"] exI [of _ "replicate 1020 0"])
       (simp add: file67_records exampleRecord_wf)
  with rej acc file67_count file67_loads [of "\<lambda>s. s"] show ?thesis by simp
qed

text \<open>
  C5. When the 256 buckets have been decoded and the position of the cursor differs from
  the length of the input, \<open>Load\<close> fails with the error \<open>unable to parse animation
  data\<close>; in particular any bytes added after a file that loads make it fail so. The
  composite decoder has no such check: bytes added after a file that \<open>Unmarshal\<close>
  decodes change neither its success nor the document.
\<close>

theorem full_consumption_check:
  "(loadBlocks hashName 0 [0..<numBlocks] (emptyAnimationData, FromBytes data)
       = Inr (animdata, reader) \<and> Position reader \<noteq> length data
     \<longrightarrow> Load hashName data = (None, Some UnableToParse))
   \<and> (Load hashName data = (Some animdata, None) \<and> extra \<noteq> []
     \<longrightarrow> Load hashName (data @ extra) = (None, Some UnableToParse))
   \<and> (Unmarshal wcFromString trimSpace cofData = (c, None)
     \<longrightarrow> Unmarshal wcFromString trimSpace (cofData @ extra) = (c, None))"
proof (intro conjI impI)
  assume "loadBlocks hashName 0 [0..<numBlocks] (emptyAnimationData, FromBytes data)
       = Inr (animdata, reader) \<and> Position reader \<noteq> length data"
  then show "Load hashName data = (None, Some UnableToParse)"
    by (simp add: Load_eq)
next
  assume "Load hashName data = (Some animdata, None) \<and> extra \<noteq> []"
  then show "Load hashName (data @ extra) = (None, Some UnableToParse)"
    using Load_extend by blast
next
  assume "Unmarshal wcFromString trimSpace cofData = (c, None)"
  then show "Unmarshal wcFromString trimSpace (cofData @ extra) = (c, None)"
    by (rule Unmarshal_append)
qed

theorem full_consumption_check_witness:
  "loadBlocks (\<lambda>s. s) 0 [0..<numBlocks] (emptyAnimationData, FromBytes (exampleAnimData @ [0]))
     = Inr (decodedStore (\<lambda>s. s) exampleBuckets,
            \<lparr>buf = exampleAnimData @ [0], pos = length exampleAnimData\<rparr>)
   \<and> Load (\<lambda>s. s) exampleAnimData = (Some (decodedStore (\<lambda>s. s) exampleBuckets), None)
   \<and> Load (\<lambda>s. s) (exampleAnimData @ [0]) = (None, Some UnableToParse)
   \<and> Unmarshal exFromString exTrimSpace exampleCOF
       = (decodedCOF exFromString exTrimSpace exampleCOF, None)
   \<and> Unmarshal exFromString exTrimSpace (exampleCOF @ [0])
       = (decodedCOF exFromString exTrimSpace exampleCOF, None)"
proof -
  note lb = loadBlocks_wellFormed [OF exampleBuckets_wf, of "\<lambda>s. s" "[0]",
              folded exampleAnimData_def]
  note a = full_consumption_check [of "\<lambda>s. s" "exampleAnimData @ [0]"
              "decodedStore (\<lambda>s. s) exampleBuckets"
              "\<lparr>buf = exampleAnimData @ [0], pos = length exampleAnimData\<rparr>"
              "[0]" exFromString exTrimSpace exampleCOF
              "decodedCOF exFromString exTrimSpace exampleCOF"]
  note b = full_consumption_check [of "\<lambda>s. s" exampleAnimData
              "decodedStore (\<lambda>s. s) exampleBuckets" _ "[0]"
              exFromString exTrimSpace exampleCOF
              "decodedCOF exFromString exTrimSpace exampleCOF"]
  from lb a b exampleAnimData_loads [of "\<lambda>s. s"] exampleCOF_decodes
  show ?thesis by (simp add: Position_def)
qed




end
